theory Spec2Isabelle
  imports Main
begin

section \<open>Kernel live patching core without ftrace (kernel/livepatch/core.c)\<close>

text \<open>
  The development embeds the stop-the-world build of the live patching core
  (\<open>!CONFIG_LIVEPATCH_FTRACE\<close>, that is \<open>CONFIG_LIVEPATCH_WO_FTRACE\<close>): symbol
  resolution, patch registration, the function-site nodes, the activeness check, and the
  enable and disable operations run by the elected CPU of the rendezvous.

  Pointers are identifiers into total heaps (one heap per struct type), a \<open>NULL\<close> pointer
  is \<open>None\<close>, kernel lists are lists of identifiers in list order, and every function
  takes the state and returns the return code together with the new state. Everything the
  file calls but does not define (kallsyms, the module loader, sysfs, kprobes, the
  architecture hooks) is a field of the environment record \<open>kenv\<close>.
\<close>

subsection \<open>Error codes and constants\<close>

type_synonym addr = nat

abbreviation (input) ENOENT :: int where "ENOENT \<equiv> 2"
abbreviation (input) EAGAIN :: int where "EAGAIN \<equiv> 11"
abbreviation (input) ENOMEM :: int where "ENOMEM \<equiv> 12"
abbreviation (input) EBUSY :: int where "EBUSY \<equiv> 16"
abbreviation (input) ENODEV :: int where "ENODEV \<equiv> 19"
abbreviation (input) EINVAL :: int where "EINVAL \<equiv> 22"
abbreviation (input) ENOPKG :: int where "ENOPKG \<equiv> 65"

text \<open>\<open>BUILD_BUG_ON(MODULE_NAME_LEN < 56 || KSYM_NAME_LEN != 512)\<close> fixes the second
  constant; the first one is a field of the environment.\<close>

abbreviation (input) KSYM_NAME_LEN :: nat where "KSYM_NAME_LEN \<equiv> 512"

text \<open>Modelled from the spec: the values of the \<open>force\<close> annotation of a function are
  macros of \<open>include/linux/livepatch.h\<close>, which is not part of the sources at hand; a
  function is either checked normally, or \<open>forced\<close> (the activeness check is skipped), or
  checked on its first \<open>KLP_MAX_REPLACE_SIZE\<close> bytes only.\<close>

abbreviation (input) KLP_NORMAL_FORCE :: int where "KLP_NORMAL_FORCE \<equiv> 0"
abbreviation (input) KLP_ENFORCEMENT :: int where "KLP_ENFORCEMENT \<equiv> 1"
abbreviation (input) KLP_STACK_OPTIMIZE :: int where "KLP_STACK_OPTIMIZE \<equiv> 2"

subsection \<open>The environment\<close>

datatype module_state =
  MODULE_STATE_LIVE | MODULE_STATE_COMING | MODULE_STATE_GOING | MODULE_STATE_UNFORMED

datatype kobj_name = PatchKobj string | ObjKobj string | FuncKobj string nat

type_synonym arch_klp_data = nat

record kenv =
  CONFIG_LIVEPATCH_STACK :: bool
  CONFIG_PREEMPTION :: bool
  CONFIG_LIVEPATCH_RESTRICT_KPROBE :: bool
  KLP_MAX_REPLACE_SIZE :: nat
  MODULE_NAME_LEN :: nat
  vmlinux_syms :: "(string \<times> addr) list"
  module_syms :: "string \<Rightarrow> (string \<times> addr) list"
  kallsyms_lookup_size_offset :: "addr \<Rightarrow> nat option"
  find_module :: "string \<Rightarrow> module_state option"
  try_module_get :: "string \<Rightarrow> bool"
  is_livepatch_module :: "string \<Rightarrow> bool"
  kobject_add :: "kobj_name \<Rightarrow> int"
  klp_apply_object_relocs :: "string option \<Rightarrow> string option \<Rightarrow> int"
  jump_label_register :: "string \<Rightarrow> int"
  klp_static_call_register :: "string \<Rightarrow> int"
  jump_label_text_reserved :: "addr \<Rightarrow> addr \<Rightarrow> int"
  static_call_text_reserved :: "addr \<Rightarrow> addr \<Rightarrow> int"
  get_kprobe :: "addr \<Rightarrow> bool"
  arch_check_jump_insn :: "addr \<Rightarrow> bool"
  arch_klp_check_calltrace :: "(int \<Rightarrow> addr \<Rightarrow> bool \<times> int) \<Rightarrow> int"
  kzalloc_atomic :: "addr \<Rightarrow> bool"
  arch_klp_mem_alloc :: "nat \<Rightarrow> bool"
  arch_klp_save_old_code :: "addr \<Rightarrow> int \<times> arch_klp_data"
  klp_patch_text :: "addr \<Rightarrow> addr \<Rightarrow> int"

subsection \<open>Symbol resolution\<close>

record klp_find_arg =
  fa_name :: string
  fa_addr :: addr
  fa_count :: nat
  fa_pos :: nat

text \<open>The counters are \<open>unsigned long\<close> in the source; a symbol table has far fewer
  than \<open>2 ^ 64\<close> entries, so they are natural numbers here.\<close>

definition klp_match_callback :: "klp_find_arg \<Rightarrow> addr \<Rightarrow> int \<times> klp_find_arg" where
  "klp_match_callback args a =
     (let args' = args\<lparr>fa_addr := a, fa_count := fa_count args + 1\<rparr> in
      if (fa_pos args' \<noteq> 0 \<and> fa_count args' = fa_pos args') \<or>
         (fa_pos args' = 0 \<and> fa_count args' > 1)
      then (1, args') else (0, args'))"

definition klp_find_callback :: "klp_find_arg \<Rightarrow> string \<Rightarrow> addr \<Rightarrow> int \<times> klp_find_arg" where
  "klp_find_callback args nm a =
     (if fa_name args \<noteq> nm then (0, args) else klp_match_callback args a)"

text \<open>The two kallsyms iterators are external: \<open>module_kallsyms_on_each_symbol\<close> calls
  the callback on every symbol of the module, \<open>kallsyms_on_each_match_symbol\<close> on the
  address of every symbol of the base image with the given name; both walk the table in
  its order and stop as soon as the callback returns non-zero.\<close>

fun module_kallsyms_on_each_symbol ::
  "(string \<times> addr) list \<Rightarrow> ('d \<Rightarrow> string \<Rightarrow> addr \<Rightarrow> int \<times> 'd) \<Rightarrow> 'd \<Rightarrow> 'd" where
  "module_kallsyms_on_each_symbol [] fn d = d"
| "module_kallsyms_on_each_symbol ((nm, a) # syms) fn d =
     (case fn d nm a of (r, d') \<Rightarrow>
        if r \<noteq> 0 then d' else module_kallsyms_on_each_symbol syms fn d')"

fun kallsyms_on_each_match_symbol ::
  "(string \<times> addr) list \<Rightarrow> ('d \<Rightarrow> addr \<Rightarrow> int \<times> 'd) \<Rightarrow> string \<Rightarrow> 'd \<Rightarrow> 'd" where
  "kallsyms_on_each_match_symbol [] fn name d = d"
| "kallsyms_on_each_match_symbol ((nm, a) # syms) fn name d =
     (if nm = name
      then (case fn d a of (r, d') \<Rightarrow>
              if r \<noteq> 0 then d' else kallsyms_on_each_match_symbol syms fn name d')
      else kallsyms_on_each_match_symbol syms fn name d)"

text \<open>The result is the return code and the value stored through \<open>addr\<close>.\<close>

definition klp_find_object_symbol ::
  "kenv \<Rightarrow> string option \<Rightarrow> string \<Rightarrow> nat \<Rightarrow> int \<times> addr" where
  "klp_find_object_symbol env objname name sympos =
     (let args0 = \<lparr>fa_name = name, fa_addr = 0, fa_count = 0, fa_pos = sympos\<rparr>;
          args = (case objname of
                    Some m \<Rightarrow> module_kallsyms_on_each_symbol (module_syms env m)
                                klp_find_callback args0
                  | None \<Rightarrow> kallsyms_on_each_match_symbol (vmlinux_syms env)
                                klp_match_callback name args0)
      in if fa_addr args = 0 then (- EINVAL, 0)
         else if fa_count args > 1 \<and> sympos = 0 then (- EINVAL, 0)
         else if sympos \<noteq> fa_count args \<and> sympos > 0 then (- EINVAL, 0)
         else (0, fa_addr args))"

text \<open>The symbol table of the object a lookup walks, and the addresses of the
  occurrences of a symbol in it, in table order.\<close>

definition object_syms :: "kenv \<Rightarrow> string option \<Rightarrow> (string \<times> addr) list" where
  "object_syms env objname =
     (case objname of Some m \<Rightarrow> module_syms env m | None \<Rightarrow> vmlinux_syms env)"

definition occurrences :: "kenv \<Rightarrow> string option \<Rightarrow> string \<Rightarrow> addr list" where
  "occurrences env objname name =
     map snd (filter (\<lambda>s. fst s = name) (object_syms env objname))"

subsection \<open>Data structures\<close>

type_synonym patch_id = nat
type_synonym obj_id = nat
type_synonym func_id = nat
type_synonym node_id = nat

text \<open>\<open>struct klp_func\<close>: the descriptor fields set by the patch author (\<open>old_name\<close>,
  \<open>new_func\<close>, \<open>old_sympos\<close>, \<open>force\<close>, \<open>nop\<close>) and the fields the core fills in.\<close>

record klp_func =
  old_name :: "string option"
  new_func :: addr
  old_sympos :: nat
  force :: int
  nop :: bool
  old_func :: addr
  old_size :: nat
  new_size :: nat
  patched :: bool
  func_node :: "node_id option"

text \<open>\<open>struct klp_object\<close>: \<open>funcs\<close> is the static array of the descriptor (the cells
  it holds, a terminating all-zero entry included if there is one), \<open>func_list\<close> the
  kernel list built from it.\<close>

record klp_object =
  obj_name :: "string option"
  funcs :: "func_id list option"
  obj_mod :: "string option"
  obj_patched :: bool
  func_list :: "func_id list"

record klp_patch =
  pmod :: "string option"
  objs :: "obj_id list option"
  enabled :: bool
  obj_list :: "obj_id list"

record klp_func_node =
  node_old_func :: addr
  func_stack :: "func_id list"
  arch_data :: arch_klp_data

text \<open>The order of the RCU list operations and of the release of node memory is
  recorded in a log, oldest entry first.\<close>

datatype rcu_event =
  ListAddRcu node_id | ListDelRcu node_id | SynchronizeRcu | MemFree node_id

text \<open>The global state: \<open>klp_root_kobj\<close> (set by \<open>klp_init\<close>), the list \<open>klp_patches\<close>,
  the list \<open>klp_func_list\<close> of function-site nodes, the memory of the four struct
  types, the count of node allocations so far (the next fresh node address), the
  module reference counts, the redirection installed at each patched address
  (\<open>None\<close>: the original code), and the RCU log.\<close>

record klp_state =
  klp_root_kobj :: bool
  klp_patches :: "patch_id list"
  klp_func_list :: "node_id list"
  patch_at :: "patch_id \<Rightarrow> klp_patch"
  object_at :: "obj_id \<Rightarrow> klp_object"
  func_at :: "func_id \<Rightarrow> klp_func"
  node_at :: "node_id \<Rightarrow> klp_func_node"
  next_node :: nat
  refcnt :: "string \<Rightarrow> int"
  text_mem :: "addr \<Rightarrow> addr option"
  rcu_log :: "rcu_event list"

definition upd_patch :: "patch_id \<Rightarrow> (klp_patch \<Rightarrow> klp_patch) \<Rightarrow> klp_state \<Rightarrow> klp_state" where
  "upd_patch p g st = st\<lparr>patch_at := (patch_at st)(p := g (patch_at st p))\<rparr>"

definition upd_obj :: "obj_id \<Rightarrow> (klp_object \<Rightarrow> klp_object) \<Rightarrow> klp_state \<Rightarrow> klp_state" where
  "upd_obj ob g st = st\<lparr>object_at := (object_at st)(ob := g (object_at st ob))\<rparr>"

definition upd_func :: "func_id \<Rightarrow> (klp_func \<Rightarrow> klp_func) \<Rightarrow> klp_state \<Rightarrow> klp_state" where
  "upd_func f g st = st\<lparr>func_at := (func_at st)(f := g (func_at st f))\<rparr>"

definition upd_node :: "node_id \<Rightarrow> (klp_func_node \<Rightarrow> klp_func_node) \<Rightarrow> klp_state \<Rightarrow> klp_state" where
  "upd_node n g st = st\<lparr>node_at := (node_at st)(n := g (node_at st n))\<rparr>"

definition klp_is_module :: "klp_state \<Rightarrow> obj_id \<Rightarrow> bool" where
  "klp_is_module st ob = (obj_name (object_at st ob) \<noteq> None)"

text \<open>Modelled from the spec: \<open>klp_is_object_loaded\<close> is an inline function of
  \<open>include/linux/livepatch.h\<close>, which is not part of the sources at hand; the spec's
  \<open>loaded\<close> flag of an object. The base image is always loaded, a named module is
  loaded while the object holds its module reference.\<close>

definition klp_is_object_loaded :: "klp_state \<Rightarrow> obj_id \<Rightarrow> bool" where
  "klp_is_object_loaded st ob =
     (obj_name (object_at st ob) = None \<or> obj_mod (object_at st ob) \<noteq> None)"

definition klp_initialized :: "klp_state \<Rightarrow> bool" where
  "klp_initialized st = klp_root_kobj st"

text \<open>\<open>klp_for_each_object_static\<close> and \<open>klp_for_each_func_static\<close> walk the static
  arrays up to the first all-zero entry.\<close>

definition klp_for_each_object_static :: "klp_state \<Rightarrow> patch_id \<Rightarrow> obj_id list" where
  "klp_for_each_object_static st p =
     (case objs (patch_at st p) of
        None \<Rightarrow> []
      | Some os \<Rightarrow>
          takeWhile (\<lambda>ob. funcs (object_at st ob) \<noteq> None \<or> obj_name (object_at st ob) \<noteq> None) os)"

definition klp_for_each_func_static :: "klp_state \<Rightarrow> obj_id \<Rightarrow> func_id list" where
  "klp_for_each_func_static st ob =
     (case funcs (object_at st ob) of
        None \<Rightarrow> []
      | Some fs \<Rightarrow>
          takeWhile (\<lambda>f. old_name (func_at st f) \<noteq> None \<or> new_func (func_at st f) \<noteq> 0 \<or>
                         old_sympos (func_at st f) \<noteq> 0) fs)"

text \<open>\<open>try_module_get(NULL)\<close> succeeds and \<open>module_put(NULL)\<close> does nothing.\<close>

definition module_get :: "kenv \<Rightarrow> klp_state \<Rightarrow> string option \<Rightarrow> bool \<times> klp_state" where
  "module_get env st m =
     (case m of
        None \<Rightarrow> (True, st)
      | Some n \<Rightarrow>
          if try_module_get env n then (True, st\<lparr>refcnt := (refcnt st)(n := refcnt st n + 1)\<rparr>)
          else (False, st))"

definition module_put :: "klp_state \<Rightarrow> string option \<Rightarrow> klp_state" where
  "module_put st m =
     (case m of
        None \<Rightarrow> st
      | Some n \<Rightarrow> st\<lparr>refcnt := (refcnt st)(n := refcnt st n - 1)\<rparr>)"

definition klp_is_patch_registered :: "klp_state \<Rightarrow> patch_id \<Rightarrow> bool" where
  "klp_is_patch_registered st p = (p \<in> set (klp_patches st))"

subsection \<open>Freeing a patch\<close>

definition klp_free_funcs :: "klp_state \<Rightarrow> obj_id \<Rightarrow> klp_state" where
  "klp_free_funcs st ob = upd_obj ob (\<lambda>x. x\<lparr>func_list := []\<rparr>) st"

definition klp_free_object :: "patch_id \<Rightarrow> obj_id \<Rightarrow> klp_state \<Rightarrow> klp_state" where
  "klp_free_object p ob st =
     (let st1 = (if klp_is_module st ob \<and> obj_mod (object_at st ob) \<noteq> None
                 then upd_obj ob (\<lambda>x. x\<lparr>obj_mod := None\<rparr>)
                        (module_put st (obj_mod (object_at st ob)))
                 else st);
          st2 = klp_free_funcs st1 ob
      in upd_patch p (\<lambda>x. x\<lparr>obj_list := removeAll ob (obj_list x)\<rparr>) st2)"

definition klp_free_objects :: "klp_state \<Rightarrow> patch_id \<Rightarrow> klp_state" where
  "klp_free_objects st p = fold (klp_free_object p) (obj_list (patch_at st p)) st"

text \<open>A kernel list holds a node at most once, so \<open>list_del\<close> leaves no occurrence.\<close>

definition klp_free_patch_start :: "klp_state \<Rightarrow> patch_id \<Rightarrow> klp_state" where
  "klp_free_patch_start st p =
     klp_free_objects (st\<lparr>klp_patches := removeAll p (klp_patches st)\<rparr>) p"

subsection \<open>Initialisation of a patch\<close>

definition klp_init_func_early :: "obj_id \<Rightarrow> func_id \<Rightarrow> klp_state \<Rightarrow> klp_state" where
  "klp_init_func_early ob f st =
     upd_func f (\<lambda>x. x\<lparr>func_node := None\<rparr>)
       (upd_obj ob (\<lambda>x. x\<lparr>func_list := func_list x @ [f]\<rparr>) st)"

definition klp_init_object_early :: "patch_id \<Rightarrow> obj_id \<Rightarrow> klp_state \<Rightarrow> klp_state" where
  "klp_init_object_early p ob st =
     upd_obj ob (\<lambda>x. x\<lparr>obj_mod := None\<rparr>)
       (upd_patch p (\<lambda>x. x\<lparr>obj_list := obj_list x @ [ob]\<rparr>)
          (upd_obj ob (\<lambda>x. x\<lparr>func_list := []\<rparr>) st))"

definition klp_init_patch_early :: "klp_state \<Rightarrow> patch_id \<Rightarrow> klp_state" where
  "klp_init_patch_early st p =
     fold (\<lambda>ob s. fold (klp_init_func_early ob) (klp_for_each_func_static s ob)
                     (klp_init_object_early p ob s))
       (klp_for_each_object_static st p)
       (upd_patch p (\<lambda>x. x\<lparr>obj_list := [], enabled := False\<rparr>) st)"

text \<open>The name of a function as a C string. \<open>klp_init_object\<close> has rejected a \<open>NULL\<close>
  name before any of the uses below runs.\<close>

definition name_of :: "string option \<Rightarrow> string" where
  "name_of s = (case s of None \<Rightarrow> [] | Some n \<Rightarrow> n)"

definition klp_init_func :: "kenv \<Rightarrow> klp_state \<Rightarrow> obj_id \<Rightarrow> func_id \<Rightarrow> int \<times> klp_state" where
  "klp_init_func env st ob f =
     (let fn = func_at st f in
      if old_name fn = None then (- EINVAL, st)
      else if new_func fn = 0 then (- EINVAL, st)
      else if length (name_of (old_name fn)) \<ge> KSYM_NAME_LEN then (- EINVAL, st)
      else (kobject_add env
              (FuncKobj (name_of (old_name fn))
                 (if old_sympos fn \<noteq> 0 then old_sympos fn else 1)),
            upd_func f (\<lambda>x. x\<lparr>patched := False\<rparr>) st))"

fun klp_init_funcs :: "kenv \<Rightarrow> klp_state \<Rightarrow> obj_id \<Rightarrow> func_id list \<Rightarrow> int \<times> klp_state" where
  "klp_init_funcs env st ob [] = (0, st)"
| "klp_init_funcs env st ob (f # fs) =
     (case klp_init_func env st ob f of (ret, st1) \<Rightarrow>
        if ret \<noteq> 0 then (ret, st1) else klp_init_funcs env st1 ob fs)"

text \<open>The body of the loop of \<open>klp_init_object_loaded\<close> for one function: the symbol
  lookup stores the address (0 on failure), the size lookups store the sizes when they
  succeed. \<open>(long)func->old_size < 0\<close> on a 64-bit \<open>unsigned long\<close> is
  \<open>2 ^ 63 \<le> old_size\<close>.\<close>

definition klp_init_func_loaded :: "kenv \<Rightarrow> klp_state \<Rightarrow> obj_id \<Rightarrow> func_id \<Rightarrow> int \<times> klp_state" where
  "klp_init_func_loaded env st ob f =
     (case klp_find_object_symbol env (obj_name (object_at st ob))
             (name_of (old_name (func_at st f))) (old_sympos (func_at st f)) of
        (ret, a) \<Rightarrow>
          let st1 = upd_func f (\<lambda>x. x\<lparr>old_func := a\<rparr>) st in
          if ret \<noteq> 0 then (ret, st1)
          else
            (case kallsyms_lookup_size_offset env a of
               None \<Rightarrow> (- ENOENT, st1)
             | Some s \<Rightarrow>
                 let st2 = upd_func f (\<lambda>x. x\<lparr>old_size := s\<rparr>) st1 in
                 if 2 ^ 63 \<le> s then (- ENOENT, st2)
                 else if s < KLP_MAX_REPLACE_SIZE env then (- EINVAL, st2)
                 else
                   (case kallsyms_lookup_size_offset env (new_func (func_at st2 f)) of
                      None \<Rightarrow> (- ENOENT, st2)
                    | Some s' \<Rightarrow> (0, upd_func f (\<lambda>x. x\<lparr>new_size := s'\<rparr>) st2))))"

fun klp_init_funcs_loaded :: "kenv \<Rightarrow> klp_state \<Rightarrow> obj_id \<Rightarrow> func_id list \<Rightarrow> int \<times> klp_state" where
  "klp_init_funcs_loaded env st ob [] = (0, st)"
| "klp_init_funcs_loaded env st ob (f # fs) =
     (case klp_init_func_loaded env st ob f of (ret, st1) \<Rightarrow>
        if ret \<noteq> 0 then (ret, st1) else klp_init_funcs_loaded env st1 ob fs)"

text \<open>Writing the relocations of the patch module (\<open>klp_write_object_relocs\<close> over the
  ELF sections of the module) touches no live patching state; only its return code is
  kept.\<close>

definition klp_init_object_loaded :: "kenv \<Rightarrow> klp_state \<Rightarrow> patch_id \<Rightarrow> obj_id \<Rightarrow> int \<times> klp_state" where
  "klp_init_object_loaded env st p ob =
     (let ret = (if klp_is_module st ob
                 then klp_apply_object_relocs env (pmod (patch_at st p)) (obj_name (object_at st ob))
                 else 0)
      in if ret \<noteq> 0 then (ret, st)
         else klp_init_funcs_loaded env st ob (func_list (object_at st ob)))"

definition klp_find_object_module :: "kenv \<Rightarrow> klp_state \<Rightarrow> obj_id \<Rightarrow> int \<times> klp_state" where
  "klp_find_object_module env st ob =
     (case obj_name (object_at st ob) of
        None \<Rightarrow> (0, st)
      | Some n \<Rightarrow>
          (case find_module env n of
             None \<Rightarrow> (- ENOPKG, st)
           | Some ms \<Rightarrow>
               if ms = MODULE_STATE_COMING then (- EINVAL, st)
               else (case module_get env st (Some n) of
                       (False, st1) \<Rightarrow> (- EINVAL, st1)
                     | (True, st1) \<Rightarrow> (0, upd_obj ob (\<lambda>x. x\<lparr>obj_mod := Some n\<rparr>) st1))))"

text \<open>The validation loop at the head of \<open>klp_init_object\<close>.\<close>

fun klp_check_funcs :: "klp_state \<Rightarrow> func_id list \<Rightarrow> int" where
  "klp_check_funcs st [] = 0"
| "klp_check_funcs st (f # fs) =
     (let fn = func_at st f in
      if old_name fn = None then - EINVAL
      else if new_func fn = 0 \<and> \<not> nop fn then - EINVAL
      else if length (name_of (old_name fn)) \<ge> KSYM_NAME_LEN then - EINVAL
      else klp_check_funcs st fs)"

text \<open>The exit path \<open>out\<close> of \<open>klp_init_object\<close>.\<close>

definition klp_init_object_out :: "klp_state \<Rightarrow> obj_id \<Rightarrow> klp_state" where
  "klp_init_object_out st ob =
     (if klp_is_module st ob
      then upd_obj ob (\<lambda>x. x\<lparr>obj_mod := None\<rparr>) (module_put st (obj_mod (object_at st ob)))
      else st)"

definition klp_init_object :: "kenv \<Rightarrow> klp_state \<Rightarrow> patch_id \<Rightarrow> obj_id \<Rightarrow> int \<times> klp_state" where
  "klp_init_object env st p ob =
     (if klp_is_module st ob \<and> length (name_of (obj_name (object_at st ob))) \<ge> MODULE_NAME_LEN env
      then (- EINVAL, st)
      else if klp_check_funcs st (func_list (object_at st ob)) \<noteq> 0
      then (klp_check_funcs st (func_list (object_at st ob)), st)
      else
        (case klp_find_object_module env
                (upd_obj ob (\<lambda>x. x\<lparr>obj_patched := False, obj_mod := None\<rparr>) st) ob of
           (ret, st1) \<Rightarrow>
             if ret \<noteq> 0 then (ret, st1)
             else
               let ret = kobject_add env
                           (ObjKobj (if klp_is_module st1 ob then name_of (obj_name (object_at st1 ob))
                                     else ''vmlinux''))
               in if ret \<noteq> 0 then (ret, klp_init_object_out st1 ob)
                  else
                    (case (if klp_is_object_loaded st1 ob then klp_init_object_loaded env st1 p ob
                           else (0, st1)) of
                       (ret, st2) \<Rightarrow>
                         if ret \<noteq> 0 then (ret, klp_init_object_out st2 ob)
                         else
                           (case klp_init_funcs env st2 ob (func_list (object_at st2 ob)) of
                              (ret, st3) \<Rightarrow>
                                if ret \<noteq> 0 then (ret, klp_init_object_out st3 ob)
                                else (0, st3)))))"

fun klp_init_objects :: "kenv \<Rightarrow> klp_state \<Rightarrow> patch_id \<Rightarrow> obj_id list \<Rightarrow> int \<times> klp_state" where
  "klp_init_objects env st p [] = (0, st)"
| "klp_init_objects env st p (ob # obs) =
     (case klp_init_object env st p ob of (ret, st1) \<Rightarrow>
        if ret \<noteq> 0 then (ret, st1) else klp_init_objects env st1 p obs)"

text \<open>All functions on the lists of a patch, in the order of the nested loops
  \<open>klp_for_each_object\<close>, \<open>klp_for_each_func\<close>.\<close>

definition patch_funcs :: "klp_state \<Rightarrow> patch_id \<Rightarrow> func_id list" where
  "patch_funcs st p = concat (map (\<lambda>ob. func_list (object_at st ob)) (obj_list (patch_at st p)))"

fun check_address_conflict_funcs :: "kenv \<Rightarrow> klp_state \<Rightarrow> func_id list \<Rightarrow> int" where
  "check_address_conflict_funcs env st [] = 0"
| "check_address_conflict_funcs env st (f # fs) =
     (let start = old_func (func_at st f);
          end' = start + KLP_MAX_REPLACE_SIZE env - 1
      in if jump_label_text_reserved env start end' \<noteq> 0 then - EINVAL
         else if static_call_text_reserved env start end' \<noteq> 0 then - EINVAL
         else check_address_conflict_funcs env st fs)"

definition check_address_conflict :: "kenv \<Rightarrow> klp_state \<Rightarrow> patch_id \<Rightarrow> int" where
  "check_address_conflict env st p = check_address_conflict_funcs env st (patch_funcs st p)"

text \<open>The load and unload hooks of an object are callbacks of the patch module; they
  run outside the live patching state.\<close>

definition klp_init_patch :: "kenv \<Rightarrow> klp_state \<Rightarrow> patch_id \<Rightarrow> int \<times> klp_state" where
  "klp_init_patch env st p =
     (let ret = kobject_add env (PatchKobj (name_of (pmod (patch_at st p))))
      in if ret \<noteq> 0 then (ret, st)
         else
           (case klp_init_objects env st p (obj_list (patch_at st p)) of
              (ret, st1) \<Rightarrow>
                if ret \<noteq> 0 then (ret, st1)
                else
                  let ret = jump_label_register env (name_of (pmod (patch_at st1 p)))
                  in if ret \<noteq> 0 then (ret, st1)
                     else
                       let ret = klp_static_call_register env (name_of (pmod (patch_at st1 p)))
                       in if ret \<noteq> 0 then (ret, st1)
                          else
                            let ret = check_address_conflict env st1 p
                            in if ret \<noteq> 0 then (ret, st1)
                               else (0, st1\<lparr>klp_patches := klp_patches st1 @ [p]\<rparr>)))"

text \<open>\<open>klp_register_patch\<close> takes a pointer to the patch (\<open>None\<close>: a \<open>NULL\<close> pointer).\<close>

definition klp_register_patch :: "kenv \<Rightarrow> klp_state \<Rightarrow> patch_id option \<Rightarrow> int \<times> klp_state" where
  "klp_register_patch env st pp =
     (case pp of
        None \<Rightarrow> (- EINVAL, st)
      | Some p \<Rightarrow>
          if pmod (patch_at st p) = None then (- EINVAL, st)
          else if objs (patch_at st p) = None then (- EINVAL, st)
          else if list_ex (\<lambda>ob. funcs (object_at st ob) = None) (klp_for_each_object_static st p)
          then (- EINVAL, st)
          else if \<not> is_livepatch_module env (name_of (pmod (patch_at st p))) then (- EINVAL, st)
          else if \<not> klp_initialized st then (- ENODEV, st)
          else if klp_is_patch_registered st p then (- EINVAL, st)
          else
            (case klp_init_patch env (klp_init_patch_early st p) p of
               (ret, st1) \<Rightarrow>
                 if ret \<noteq> 0 then (ret, klp_free_patch_start st1 p) else (0, st1)))"

definition klp_unregister_patch :: "kenv \<Rightarrow> klp_state \<Rightarrow> patch_id \<Rightarrow> int \<times> klp_state" where
  "klp_unregister_patch env st p =
     (if \<not> klp_is_patch_registered st p then (- EINVAL, st)
      else if enabled (patch_at st p) then (- EBUSY, st)
      else (0, klp_free_patch_start st p))"

subsection \<open>The activeness check\<close>

record actv_func =
  af_addr :: addr
  af_size :: nat
  af_name :: "string option"
  af_force :: int

definition klp_size_to_check :: "kenv \<Rightarrow> nat \<Rightarrow> int \<Rightarrow> nat" where
  "klp_size_to_check env func_size frc =
     (if frc = KLP_STACK_OPTIMIZE \<and> func_size > KLP_MAX_REPLACE_SIZE env
      then KLP_MAX_REPLACE_SIZE env else func_size)"

text \<open>Modelled from the spec: \<open>klp_compare_address\<close> is an inline function of
  \<open>include/linux/livepatch.h\<close>, which is not part of the sources at hand. A return
  address inside the byte range \<open>[func_addr, func_addr + check_size)\<close> is an activeness
  violation (\<open>-EAGAIN\<close>).\<close>

definition klp_compare_address :: "addr \<Rightarrow> addr \<Rightarrow> string option \<Rightarrow> nat \<Rightarrow> int" where
  "klp_compare_address pc func_addr func_name check_size =
     (if func_addr \<le> pc \<and> pc < func_addr + check_size then - EAGAIN else 0)"

text \<open>\<open>check_func_list\<close> stores into \<open>*ret\<close> and returns whether the walk goes on; the
  model takes the old value of \<open>*ret\<close> and returns the pair.\<close>

fun check_func_list :: "kenv \<Rightarrow> actv_func list \<Rightarrow> int \<Rightarrow> addr \<Rightarrow> bool \<times> int" where
  "check_func_list env [] ret pc = (True, ret)"
| "check_func_list env (af # afs) ret pc =
     (let r = klp_compare_address pc (af_addr af) (af_name af)
                (klp_size_to_check env (af_size af) (af_force af))
      in if r \<noteq> 0 then (False, r) else check_func_list env afs r pc)"

definition add_func_to_list ::
  "kenv \<Rightarrow> actv_func list \<Rightarrow> addr \<Rightarrow> nat \<Rightarrow> string option \<Rightarrow> int \<Rightarrow> int \<times> actv_func list" where
  "add_func_to_list env fl func_addr func_size func_name frc =
     (if \<not> kzalloc_atomic env func_addr then (- ENOMEM, fl)
      else (0, fl @ [\<lparr>af_addr = func_addr, af_size = func_size,
                      af_name = func_name, af_force = frc\<rparr>]))"

text \<open>The stack of the node of a function. \<open>func_node\<close> is set whenever the check
  runs: by \<open>klp_mem_prepare\<close> on enable, and it stays set while the patch is enabled.\<close>

definition node_stack :: "klp_state \<Rightarrow> func_id \<Rightarrow> func_id list" where
  "node_stack st f =
     (case func_node (func_at st f) of
        None \<Rightarrow> []
      | Some n \<Rightarrow> func_stack (node_at st n))"

text \<open>Address and size of the replacement on top of a stack
  (\<open>list_first_or_null_rcu\<close>, then \<open>prev->new_func\<close> and \<open>prev->new_size\<close>).\<close>

definition stack_top :: "klp_state \<Rightarrow> func_id list \<Rightarrow> addr \<times> nat" where
  "stack_top st stack =
     (case stack of
        [] \<Rightarrow> (0, 0)
      | prev # _ \<Rightarrow> (new_func (func_at st prev), new_size (func_at st prev)))"

definition arch_klp_check_activeness_func ::
  "kenv \<Rightarrow> klp_state \<Rightarrow> func_id \<Rightarrow> bool \<Rightarrow> actv_func list \<Rightarrow> int \<times> actv_func list" where
  "arch_klp_check_activeness_func env st f enable fl =
     (let fn = func_at st f; stack = node_stack st f in
      if enable then
        (if patched fn \<or> force fn = KLP_ENFORCEMENT then (0, fl)
         else
           let (func_addr, func_size) =
                 (if stack = [] then (old_func fn, old_size fn) else stack_top st stack)
           in if CONFIG_PREEMPTION env \<or> force fn = KLP_NORMAL_FORCE \<or>
                 arch_check_jump_insn env func_addr
              then add_func_to_list env fl func_addr func_size (old_name fn) (force fn)
              else (0, fl))
      else
        (case (if CONFIG_PREEMPTION env
               then (let (func_addr, func_size) =
                           (if length stack = 1 then (old_func fn, old_size fn)
                            else stack_top st stack)
                     in add_func_to_list env fl func_addr func_size (old_name fn) 0)
               else (0, fl)) of
           (ret, fl1) \<Rightarrow>
             if ret \<noteq> 0 then (ret, fl1)
             else add_func_to_list env fl1 (new_func fn) (new_size fn) (old_name fn) 0))"

fun klp_check_activeness_funcs ::
  "kenv \<Rightarrow> klp_state \<Rightarrow> func_id list \<Rightarrow> bool \<Rightarrow> actv_func list \<Rightarrow> int \<times> actv_func list" where
  "klp_check_activeness_funcs env st [] enable fl = (0, fl)"
| "klp_check_activeness_funcs env st (f # fs) enable fl =
     (case arch_klp_check_activeness_func env st f enable fl of (ret, fl1) \<Rightarrow>
        if ret \<noteq> 0 then (ret, fl1) else klp_check_activeness_funcs env st fs enable fl1)"

definition klp_check_activeness_func ::
  "kenv \<Rightarrow> klp_state \<Rightarrow> patch_id \<Rightarrow> bool \<Rightarrow> actv_func list \<Rightarrow> int \<times> actv_func list" where
  "klp_check_activeness_func env st p enable fl =
     klp_check_activeness_funcs env st (patch_funcs st p) enable fl"

text \<open>The stack walk itself, \<open>arch_klp_check_calltrace\<close>, belongs to the architecture:
  it is given the callback and returns the verdict.\<close>

definition klp_check_calltrace :: "kenv \<Rightarrow> klp_state \<Rightarrow> patch_id \<Rightarrow> bool \<Rightarrow> int" where
  "klp_check_calltrace env st p enable =
     (case klp_check_activeness_func env st p enable [] of (ret, fl) \<Rightarrow>
        if ret \<noteq> 0 then ret
        else if fl = [] then ret
        else arch_klp_check_calltrace env (check_func_list env fl))"

text \<open>Modelled from the spec: the stack walk of an architecture, which is not part of
  the sources at hand. It walks the return addresses of the call stack of every CPU and
  stops at the first address the callback refuses, with the code the callback stored.\<close>

fun walk_stack :: "(int \<Rightarrow> addr \<Rightarrow> bool \<times> int) \<Rightarrow> int \<Rightarrow> addr list \<Rightarrow> int" where
  "walk_stack fn ret [] = ret"
| "walk_stack fn ret (pc # pcs) =
     (case fn ret pc of (go_on, r) \<Rightarrow> if go_on then walk_stack fn r pcs else r)"

definition stack_walker :: "addr list list \<Rightarrow> (int \<Rightarrow> addr \<Rightarrow> bool \<times> int) \<Rightarrow> int" where
  "stack_walker stacks fn = walk_stack fn 0 (concat stacks)"

subsection \<open>Function-site nodes\<close>

definition klp_find_func_node :: "klp_state \<Rightarrow> addr \<Rightarrow> node_id option" where
  "klp_find_func_node st a = find (\<lambda>n. node_old_func (node_at st n) = a) (klp_func_list st)"

definition klp_add_func_node :: "klp_state \<Rightarrow> node_id \<Rightarrow> klp_state" where
  "klp_add_func_node st n =
     st\<lparr>klp_func_list := n # klp_func_list st, rcu_log := rcu_log st @ [ListAddRcu n]\<rparr>"

definition klp_del_func_node :: "klp_state \<Rightarrow> node_id \<Rightarrow> klp_state" where
  "klp_del_func_node st n =
     st\<lparr>klp_func_list := removeAll n (klp_func_list st), rcu_log := rcu_log st @ [ListDelRcu n]\<rparr>"

definition synchronize_rcu :: "klp_state \<Rightarrow> klp_state" where
  "synchronize_rcu st = st\<lparr>rcu_log := rcu_log st @ [SynchronizeRcu]\<rparr>"

definition arch_klp_mem_free :: "klp_state \<Rightarrow> node_id \<Rightarrow> klp_state" where
  "arch_klp_mem_free st n = st\<lparr>rcu_log := rcu_log st @ [MemFree n]\<rparr>"

text \<open>The memory of a node that has been given back to the allocator
  (\<open>arch_klp_mem_free\<close>, i.e. \<open>kfree\<close>) must not be used again.\<close>

definition node_freed :: "klp_state \<Rightarrow> node_id \<Rightarrow> bool" where
  "node_freed st n = (MemFree n \<in> set (rcu_log st))"

text \<open>An allocation that succeeds returns the next fresh address; whether the
  \<open>k\<close>-th allocation succeeds, and what saving the old code returns, is up to the
  environment.\<close>

definition func_node_alloc :: "kenv \<Rightarrow> klp_state \<Rightarrow> func_id \<Rightarrow> node_id option \<times> klp_state" where
  "func_node_alloc env st f =
     (case klp_find_func_node st (old_func (func_at st f)) of
        Some n \<Rightarrow> (Some n, st)
      | None \<Rightarrow>
          let n = next_node st; st1 = st\<lparr>next_node := n + 1\<rparr> in
          if \<not> arch_klp_mem_alloc env n then (None, st1)
          else
            (case arch_klp_save_old_code env (old_func (func_at st f)) of
               (ret, d) \<Rightarrow>
                 let st2 = st1\<lparr>node_at := (node_at st1)
                             (n := \<lparr>node_old_func = old_func (func_at st f),
                                    func_stack = [], arch_data = d\<rparr>)\<rparr>
                 in if ret \<noteq> 0 then (None, arch_klp_mem_free st2 n)
                    else (Some n, klp_add_func_node st2 n)))"

text \<open>\<open>func_node_free\<close> follows \<open>func->func_node\<close> and reads the stack of the node
  it finds there. When that memory has been freed already (an earlier call for another
  function of the same patch, which pointed to the same node, has freed it), the C
  program reads freed memory, unlinks the node a second time and frees it a second time:
  its behaviour is undefined from there on, which is the result \<open>None\<close>.\<close>

definition func_node_free :: "func_id \<Rightarrow> klp_state \<Rightarrow> klp_state option" where
  "func_node_free f st =
     (case func_node (func_at st f) of
        None \<Rightarrow> Some st
      | Some n \<Rightarrow>
          if node_freed st n then None
          else
            let st1 = upd_func f (\<lambda>x. x\<lparr>func_node := None\<rparr>) st in
            if func_stack (node_at st1 n) = []
            then Some (arch_klp_mem_free (synchronize_rcu (klp_del_func_node st1 n)) n)
            else Some st1)"

text \<open>The nested loop of \<open>klp_mem_recycle\<close>, over the functions of the patch.\<close>

fun klp_mem_recycle_funcs :: "func_id list \<Rightarrow> klp_state \<Rightarrow> klp_state option" where
  "klp_mem_recycle_funcs [] st = Some st"
| "klp_mem_recycle_funcs (f # fs) st =
     (case func_node_free f st of
        None \<Rightarrow> None
      | Some st1 \<Rightarrow> klp_mem_recycle_funcs fs st1)"

definition klp_mem_recycle :: "klp_state \<Rightarrow> patch_id \<Rightarrow> klp_state option" where
  "klp_mem_recycle st p = klp_mem_recycle_funcs (patch_funcs st p) st"

text \<open>The nested loop of \<open>klp_mem_prepare\<close>; \<open>False\<close> when an allocation failed.\<close>

fun klp_mem_prepare_funcs :: "kenv \<Rightarrow> klp_state \<Rightarrow> func_id list \<Rightarrow> bool \<times> klp_state" where
  "klp_mem_prepare_funcs env st [] = (True, st)"
| "klp_mem_prepare_funcs env st (f # fs) =
     (case func_node_alloc env st f of (r, st1) \<Rightarrow>
        let st2 = upd_func f (\<lambda>x. x\<lparr>func_node := r\<rparr>) st1 in
        if r = None then (False, st2) else klp_mem_prepare_funcs env st2 fs)"

definition klp_mem_prepare :: "kenv \<Rightarrow> klp_state \<Rightarrow> patch_id \<Rightarrow> (int \<times> klp_state) option" where
  "klp_mem_prepare env st p =
     (case klp_mem_prepare_funcs env st (patch_funcs st p) of
        (ok, st1) \<Rightarrow>
          if ok then Some (0, st1)
          else map_option (\<lambda>s. (- ENOMEM, s)) (klp_mem_recycle st1 p))"

definition klp_check_patch_kprobed :: "kenv \<Rightarrow> klp_state \<Rightarrow> patch_id \<Rightarrow> bool" where
  "klp_check_patch_kprobed env st p =
     (CONFIG_LIVEPATCH_RESTRICT_KPROBE env \<and>
      list_ex (\<lambda>f. list_ex (\<lambda>i. get_kprobe env (old_func (func_at st f) + i))
                     [0 ..< old_size (func_at st f)])
        (patch_funcs st p))"

subsection \<open>Patching and unpatching\<close>

text \<open>Modelled from the spec: the architecture's \<open>arch_klp_patch_func\<close> and
  \<open>arch_klp_unpatch_func\<close>, which are not part of the sources at hand (the file holds
  their weak stubs only). Patch application pushes the function onto the stack of its
  function-site node and redirects the old address to the new function; when writing the
  instructions fails, nothing is changed. Unpatching removes the function from the stack
  and restores whichever function is now on top, or the original code when the stack
  has become empty.\<close>

definition arch_klp_patch_func :: "kenv \<Rightarrow> klp_state \<Rightarrow> func_id \<Rightarrow> int \<times> klp_state" where
  "arch_klp_patch_func env st f =
     (let fn = func_at st f in
      case func_node fn of
        None \<Rightarrow> (- EINVAL, st)
      | Some n \<Rightarrow>
          let ret = klp_patch_text env (old_func fn) (new_func fn) in
          if ret \<noteq> 0 then (ret, st)
          else (0, (upd_node n (\<lambda>x. x\<lparr>func_stack := f # func_stack x\<rparr>) st)
                     \<lparr>text_mem := (text_mem st)(old_func fn := Some (new_func fn))\<rparr>))"

definition arch_klp_unpatch_func :: "klp_state \<Rightarrow> func_id \<Rightarrow> klp_state" where
  "arch_klp_unpatch_func st f =
     (let fn = func_at st f in
      case func_node fn of
        None \<Rightarrow> st
      | Some n \<Rightarrow>
          let stack = remove1 f (func_stack (node_at st n)) in
          (upd_node n (\<lambda>x. x\<lparr>func_stack := stack\<rparr>) st)
            \<lparr>text_mem := (text_mem st)
               (old_func fn := (case stack of
                                  [] \<Rightarrow> None
                                | g # _ \<Rightarrow> Some (new_func (func_at st g))))\<rparr>)"

definition klp_unpatch_func :: "func_id \<Rightarrow> klp_state \<Rightarrow> klp_state" where
  "klp_unpatch_func f st =
     (let fn = func_at st f in
      if \<not> patched fn then st
      else if old_func fn = 0 then st
      else if func_node fn = None then st
      else upd_func f (\<lambda>x. x\<lparr>patched := False\<rparr>) (arch_klp_unpatch_func st f))"

definition klp_patch_func :: "kenv \<Rightarrow> klp_state \<Rightarrow> func_id \<Rightarrow> int \<times> klp_state" where
  "klp_patch_func env st f =
     (let fn = func_at st f in
      if patched fn then (0, st)
      else if old_func fn = 0 then (- EINVAL, st)
      else if func_node fn = None then (- EINVAL, st)
      else (case arch_klp_patch_func env st f of
              (ret, st1) \<Rightarrow>
                if ret = 0 then (ret, upd_func f (\<lambda>x. x\<lparr>patched := True\<rparr>) st1)
                else (ret, st1)))"

definition klp_unpatch_object :: "obj_id \<Rightarrow> klp_state \<Rightarrow> klp_state" where
  "klp_unpatch_object ob st =
     upd_obj ob (\<lambda>x. x\<lparr>obj_patched := False\<rparr>)
       (fold (\<lambda>f s. if patched (func_at s f) then klp_unpatch_func f s else s)
          (func_list (object_at st ob)) st)"

fun klp_patch_funcs :: "kenv \<Rightarrow> klp_state \<Rightarrow> obj_id \<Rightarrow> func_id list \<Rightarrow> int \<times> klp_state" where
  "klp_patch_funcs env st ob [] = (0, st)"
| "klp_patch_funcs env st ob (f # fs) =
     (case klp_patch_func env st f of (ret, st1) \<Rightarrow>
        if ret \<noteq> 0 then (ret, klp_unpatch_object ob st1)
        else klp_patch_funcs env st1 ob fs)"

definition klp_patch_object :: "kenv \<Rightarrow> klp_state \<Rightarrow> obj_id \<Rightarrow> int \<times> klp_state" where
  "klp_patch_object env st ob =
     (if obj_patched (object_at st ob) then (0, st)
      else (case klp_patch_funcs env st ob (func_list (object_at st ob)) of
              (ret, st1) \<Rightarrow>
                if ret \<noteq> 0 then (ret, st1)
                else (0, upd_obj ob (\<lambda>x. x\<lparr>obj_patched := True\<rparr>) st1)))"

definition klp_unpatch_objects :: "klp_state \<Rightarrow> patch_id \<Rightarrow> klp_state" where
  "klp_unpatch_objects st p =
     fold (\<lambda>ob s. if obj_patched (object_at s ob) then klp_unpatch_object ob s else s)
       (obj_list (patch_at st p)) st"

subsection \<open>Enabling and disabling inside the rendezvous\<close>

definition disable_patch :: "klp_state \<Rightarrow> patch_id \<Rightarrow> int \<times> klp_state" where
  "disable_patch st p =
     (let st1 = upd_patch p (\<lambda>x. x\<lparr>enabled := False\<rparr>) (klp_unpatch_objects st p)
      in (0, module_put st1 (pmod (patch_at st1 p))))"

fun enable_patch_objects :: "kenv \<Rightarrow> klp_state \<Rightarrow> patch_id \<Rightarrow> obj_id list \<Rightarrow> int \<times> klp_state" where
  "enable_patch_objects env st p [] = (0, st)"
| "enable_patch_objects env st p (ob # obs) =
     (if \<not> klp_is_object_loaded st ob then enable_patch_objects env st p obs
      else (case klp_patch_object env st ob of (ret, st1) \<Rightarrow>
              if ret \<noteq> 0 then (ret, snd (disable_patch st1 p))
              else enable_patch_objects env st1 p obs))"

definition enable_patch :: "kenv \<Rightarrow> klp_state \<Rightarrow> patch_id \<Rightarrow> int \<times> klp_state" where
  "enable_patch env st p =
     (if \<not> enabled (patch_at st p)
      then (case module_get env st (pmod (patch_at st p)) of
              (False, st1) \<Rightarrow> (- ENODEV, st1)
            | (True, st1) \<Rightarrow>
                enable_patch_objects env (upd_patch p (\<lambda>x. x\<lparr>enabled := True\<rparr>) st1) p
                  (obj_list (patch_at st1 p)))
      else enable_patch_objects env st p (obj_list (patch_at st p)))"

text \<open>What the CPU elected by \<open>atomic_inc_return(&pd->cpu_count) == 1\<close> runs; the
  other CPUs spin on the counter and return 0.\<close>

definition klp_try_enable_patch :: "kenv \<Rightarrow> klp_state \<Rightarrow> patch_id \<Rightarrow> int \<times> klp_state" where
  "klp_try_enable_patch env st p =
     (if klp_check_patch_kprobed env st p then (- EINVAL, st)
      else let ret = klp_check_calltrace env st p True in
           if ret \<noteq> 0 then (ret, st) else enable_patch env st p)"

definition klp_try_disable_patch :: "kenv \<Rightarrow> klp_state \<Rightarrow> patch_id \<Rightarrow> int \<times> klp_state" where
  "klp_try_disable_patch env st p =
     (if klp_check_patch_kprobed env st p then (- EINVAL, st)
      else let ret = klp_check_calltrace env st p False in
           if ret \<noteq> 0 then (ret, st) else disable_patch st p)"

text \<open>\<open>stop_machine\<close> runs the callback on every online CPU at once and returns the
  error of the elected CPU; the state it leaves is the one that CPU leaves.\<close>

definition klp_stop_machine ::
  "(klp_state \<Rightarrow> patch_id \<Rightarrow> int \<times> klp_state) \<Rightarrow> klp_state \<Rightarrow> patch_id \<Rightarrow> int \<times> klp_state" where
  "klp_stop_machine fn st p = fn st p"

text \<open>The neighbours of a patch on \<open>klp_patches\<close>: \<open>None\<close> stands for the list head.
  Both operations below are reached from \<open>enabled_store\<close> only, once
  \<open>klp_is_patch_registered\<close> has found the patch on the list.\<close>

fun list_next_entry :: "'a list \<Rightarrow> 'a \<Rightarrow> 'a option" where
  "list_next_entry (x # y # xs) p = (if x = p then Some y else list_next_entry (y # xs) p)"
| "list_next_entry xs p = None"

fun list_prev_entry :: "'a list \<Rightarrow> 'a \<Rightarrow> 'a option" where
  "list_prev_entry (x # y # xs) p = (if y = p then Some x else list_prev_entry (y # xs) p)"
| "list_prev_entry xs p = None"

definition klp_disable_patch' :: "kenv \<Rightarrow> klp_state \<Rightarrow> patch_id \<Rightarrow> (int \<times> klp_state) option" where
  "klp_disable_patch' env st p =
     (if \<not> enabled (patch_at st p) then Some (- EINVAL, st)
      else if CONFIG_LIVEPATCH_STACK env \<and>
              (case list_next_entry (klp_patches st) p of
                 None \<Rightarrow> False
               | Some q \<Rightarrow> enabled (patch_at st q))
      then Some (- EBUSY, st)
      else (case klp_stop_machine (klp_try_disable_patch env) st p of
              (ret, st1) \<Rightarrow>
                if ret \<noteq> 0 then Some (ret, st1)
                else map_option (\<lambda>s. (0, s)) (klp_mem_recycle st1 p)))"

definition klp_enable_patch' :: "kenv \<Rightarrow> klp_state \<Rightarrow> patch_id \<Rightarrow> (int \<times> klp_state) option" where
  "klp_enable_patch' env st p =
     (if enabled (patch_at st p) then Some (- EINVAL, st)
      else if CONFIG_LIVEPATCH_STACK env \<and>
              (case list_prev_entry (klp_patches st) p of
                 None \<Rightarrow> False
               | Some q \<Rightarrow> \<not> enabled (patch_at st q))
      then Some (- EBUSY, st)
      else (case klp_mem_prepare env st p of
              None \<Rightarrow> None
            | Some (ret, st1) \<Rightarrow>
                if ret \<noteq> 0 then Some (ret, st1)
                else (case klp_stop_machine (klp_try_enable_patch env) st1 p of
                        (ret, st2) \<Rightarrow>
                          if ret \<noteq> 0 then map_option (\<lambda>s. (ret, s)) (klp_mem_recycle st2 p)
                          else if \<not> CONFIG_LIVEPATCH_STACK env
                          then Some (0, st2\<lparr>klp_patches := removeAll p (klp_patches st2) @ [p]\<rparr>)
                          else Some (0, st2))))"

text \<open>\<open>enabled_store\<close>: \<open>en\<close> is the result of \<open>kstrtobool\<close> on the buffer (\<open>None\<close> when
  it does not parse), the result is the error or \<open>count\<close>.\<close>

definition enabled_store ::
  "kenv \<Rightarrow> klp_state \<Rightarrow> patch_id \<Rightarrow> bool option \<Rightarrow> int \<Rightarrow> (int \<times> klp_state) option" where
  "enabled_store env st p en count =
     (case en of
        None \<Rightarrow> Some (- EINVAL, st)
      | Some enable \<Rightarrow>
          if \<not> klp_is_patch_registered st p then Some (- EINVAL, st)
          else if enabled (patch_at st p) = enable then Some (- EINVAL, st)
          else map_option (\<lambda>(ret, st1). if ret \<noteq> 0 then (ret, st1) else (count, st1))
                 (if enable then klp_enable_patch' env st p else klp_disable_patch' env st p))"

subsection \<open>An environment and a state for the examples\<close>

definition env0 :: kenv where
  "env0 =
     \<lparr>CONFIG_LIVEPATCH_STACK = True, CONFIG_PREEMPTION = True,
      CONFIG_LIVEPATCH_RESTRICT_KPROBE = True, KLP_MAX_REPLACE_SIZE = 16,
      MODULE_NAME_LEN = 56,
      vmlinux_syms = [(''foo'', 4096), (''bar'', 8192), (''foo'', 12288), (''zero'', 0)],
      module_syms = (\<lambda>m. []),
      kallsyms_lookup_size_offset = (\<lambda>a. if a = 0 then None else Some 64),
      find_module = (\<lambda>m. None), try_module_get = (\<lambda>m. True),
      is_livepatch_module = (\<lambda>m. True), kobject_add = (\<lambda>k. 0),
      klp_apply_object_relocs = (\<lambda>m ob. 0), jump_label_register = (\<lambda>m. 0),
      klp_static_call_register = (\<lambda>m. 0), jump_label_text_reserved = (\<lambda>a b. 0),
      static_call_text_reserved = (\<lambda>a b. 0), get_kprobe = (\<lambda>a. False),
      arch_check_jump_insn = (\<lambda>a. True), arch_klp_check_calltrace = stack_walker [],
      kzalloc_atomic = (\<lambda>a. True), arch_klp_mem_alloc = (\<lambda>k. True),
      arch_klp_save_old_code = (\<lambda>a. (0, a)), klp_patch_text = (\<lambda>a b. 0)\<rparr>"

subsection \<open>States for the examples\<close>

text \<open>Two patch modules, \<open>livepatch_a\<close> (patch 10) and \<open>livepatch_b\<close> (patch 20),
  each with one object for the base image and one function replacing \<open>bar\<close>; cell 0 of
  every memory is all-zero and ends the static arrays. \<open>st_boot\<close> is the state after
  \<open>klp_init\<close>, \<open>st_reg\<close> the state once both patches are registered, \<open>st_en1\<close> the
  state once patch 10 is enabled, \<open>st_en12\<close> the state once both are.\<close>

definition null_func :: klp_func where
  "null_func = \<lparr>old_name = None, new_func = 0, old_sympos = 0, force = 0, nop = False,
     old_func = 0, old_size = 0, new_size = 0, patched = False, func_node = None\<rparr>"

definition null_object :: klp_object where
  "null_object = \<lparr>obj_name = None, funcs = None, obj_mod = None, obj_patched = False, func_list = []\<rparr>"

definition null_patch :: klp_patch where
  "null_patch = \<lparr>pmod = None, objs = None, enabled = False, obj_list = []\<rparr>"

definition st_boot :: klp_state where
  "st_boot =
     \<lparr>klp_root_kobj = True, klp_patches = [], klp_func_list = [],
      patch_at = (\<lambda>p. null_patch)
        (10 := null_patch\<lparr>pmod := Some ''livepatch_a'', objs := Some [11, 0]\<rparr>,
         20 := null_patch\<lparr>pmod := Some ''livepatch_b'', objs := Some [21, 0]\<rparr>),
      object_at = (\<lambda>ob. null_object)
        (11 := null_object\<lparr>funcs := Some [12, 0]\<rparr>,
         21 := null_object\<lparr>funcs := Some [22, 0]\<rparr>),
      func_at = (\<lambda>f. null_func)
        (12 := null_func\<lparr>old_name := Some ''bar'', new_func := 20480\<rparr>,
         22 := null_func\<lparr>old_name := Some ''bar'', new_func := 24576\<rparr>),
      node_at = (\<lambda>n. \<lparr>node_old_func = 0, func_stack = [], arch_data = 0\<rparr>),
      next_node = 100, refcnt = (\<lambda>m. 0), text_mem = (\<lambda>a. None), rcu_log = []\<rparr>"

definition st_reg :: klp_state where
  "st_reg = st_boot\<lparr>klp_patches := [10, 20],
          patch_at := (patch_at st_boot)
            (10 := (patch_at st_boot 10)\<lparr>obj_list := [11]\<rparr>,
             20 := (patch_at st_boot 20)\<lparr>obj_list := [21]\<rparr>),
          object_at := (object_at st_boot)
            (11 := (object_at st_boot 11)\<lparr>func_list := [12]\<rparr>,
             21 := (object_at st_boot 21)\<lparr>func_list := [22]\<rparr>),
          func_at := (func_at st_boot)
            (12 := (func_at st_boot 12)\<lparr>old_func := 8192, old_size := 64, new_size := 64\<rparr>,
             22 := (func_at st_boot 22)\<lparr>old_func := 8192, old_size := 64, new_size := 64\<rparr>)\<rparr>"

definition st_en1 :: klp_state where
  "st_en1 = st_reg\<lparr>klp_func_list := [100],
      patch_at := (patch_at st_reg)(10 := (patch_at st_reg 10)\<lparr>enabled := True\<rparr>),
      object_at := (object_at st_reg)(11 := (object_at st_reg 11)\<lparr>obj_patched := True\<rparr>),
      func_at := (func_at st_reg)(12 := (func_at st_reg 12)\<lparr>patched := True, func_node := Some 100\<rparr>),
      node_at := (node_at st_reg)(100 := \<lparr>node_old_func = 8192, func_stack = [12], arch_data = 8192\<rparr>),
      next_node := 101, refcnt := (refcnt st_reg)(''livepatch_a'' := 1),
      text_mem := (text_mem st_reg)(8192 := Some 20480), rcu_log := [ListAddRcu 100]\<rparr>"

definition st_en12 :: klp_state where
  "st_en12 = st_en1\<lparr>
      patch_at := (patch_at st_en1)(20 := (patch_at st_en1 20)\<lparr>enabled := True\<rparr>),
      object_at := (object_at st_en1)(21 := (object_at st_en1 21)\<lparr>obj_patched := True\<rparr>),
      func_at := (func_at st_en1)(22 := (func_at st_en1 22)\<lparr>patched := True, func_node := Some 100\<rparr>),
      node_at := (node_at st_en1)(100 := \<lparr>node_old_func = 8192, func_stack = [22, 12], arch_data = 8192\<rparr>),
      refcnt := (refcnt st_en1)(''livepatch_b'' := 1),
      text_mem := (text_mem st_en1)(8192 := Some 24576)\<rparr>"

text \<open>An environment in which every function is 8 bytes long.\<close>

definition env_small :: kenv where
  "env_small = env0\<lparr>kallsyms_lookup_size_offset := (\<lambda>a. Some 8)\<rparr>"

subsection \<open>Auxiliary notions of the proofs\<close>

text \<open>The walk of the callback over the occurrences alone (the entries of other names
  do not change the argument record).\<close>

fun scan :: "addr list \<Rightarrow> klp_find_arg \<Rightarrow> klp_find_arg" where
  "scan [] args = args"
| "scan (a # as) args =
     (case klp_match_callback args a of (r, args') \<Rightarrow> if r \<noteq> 0 then args' else scan as args')"

text \<open>A function whose old symbol resolves to a function shorter than the footprint.\<close>

definition too_small :: "kenv \<Rightarrow> klp_state \<Rightarrow> obj_id \<Rightarrow> func_id \<Rightarrow> bool" where
  "too_small env st ob f =
     (case klp_find_object_symbol env (obj_name (object_at st ob))
             (name_of (old_name (func_at st f))) (old_sympos (func_at st f)) of
        (ret, a) \<Rightarrow>
          ret = 0 \<and>
          (case kallsyms_lookup_size_offset env a of
             None \<Rightarrow> False
           | Some s \<Rightarrow> s < KLP_MAX_REPLACE_SIZE env))"

text \<open>The steps of \<open>klp_mem_prepare\<close> and \<open>klp_mem_recycle\<close> change nothing but the
  \<open>func_node\<close> pointers, the node list, the node memory and the RCU log.\<close>

definition mem_step :: "klp_state \<Rightarrow> klp_state \<Rightarrow> bool" where
  "mem_step st st' =
     (klp_root_kobj st' = klp_root_kobj st \<and> klp_patches st' = klp_patches st \<and>
      patch_at st' = patch_at st \<and> object_at st' = object_at st \<and>
      refcnt st' = refcnt st \<and> text_mem st' = text_mem st \<and>
      (\<forall>f. func_at st' f = (func_at st f)\<lparr>func_node := func_node (func_at st' f)\<rparr>))"

text \<open>The steps that patch and unpatch functions and objects change nothing but the
  \<open>patched\<close> flags of functions and objects, the stacks of the nodes and the
  redirections.\<close>

definition patch_step :: "klp_state \<Rightarrow> klp_state \<Rightarrow> bool" where
  "patch_step st st' =
     (klp_root_kobj st' = klp_root_kobj st \<and> klp_patches st' = klp_patches st \<and>
      klp_func_list st' = klp_func_list st \<and> next_node st' = next_node st \<and>
      refcnt st' = refcnt st \<and> rcu_log st' = rcu_log st \<and> patch_at st' = patch_at st \<and>
      (\<forall>ob. object_at st' ob = (object_at st ob)\<lparr>obj_patched := obj_patched (object_at st' ob)\<rparr>) \<and>
      (\<forall>f. func_at st' f = (func_at st f)\<lparr>patched := patched (func_at st' f)\<rparr>) \<and>
      (\<forall>n. node_at st' n = (node_at st n)\<lparr>func_stack := func_stack (node_at st' n)\<rparr>))"

text \<open>The steps of the rendezvous change, on top of a patch step, the \<open>enabled\<close> flag
  of the one patch and the module reference counts.\<close>

definition en_step :: "patch_id \<Rightarrow> klp_state \<Rightarrow> klp_state \<Rightarrow> bool" where
  "en_step p st st' =
     (klp_root_kobj st' = klp_root_kobj st \<and> klp_patches st' = klp_patches st \<and>
      klp_func_list st' = klp_func_list st \<and> next_node st' = next_node st \<and>
      rcu_log st' = rcu_log st \<and>
      (\<forall>q. q \<noteq> p \<longrightarrow> patch_at st' q = patch_at st q) \<and>
      patch_at st' p = (patch_at st p)\<lparr>enabled := enabled (patch_at st' p)\<rparr> \<and>
      (\<forall>ob. object_at st' ob = (object_at st ob)\<lparr>obj_patched := obj_patched (object_at st' ob)\<rparr>) \<and>
      (\<forall>f. func_at st' f = (func_at st f)\<lparr>patched := patched (func_at st' f)\<rparr>) \<and>
      (\<forall>n. node_at st' n = (node_at st n)\<lparr>func_stack := func_stack (node_at st' n)\<rparr>))"


text \<open>The code a call of the old function runs at present: the original function, or the
  replacement on top of the stack of its node.\<close>

definition active_range :: "klp_state \<Rightarrow> func_id \<Rightarrow> addr \<times> nat" where
  "active_range st f =
     (if node_stack st f = [] then (old_func (func_at st f), old_size (func_at st f))
      else stack_top st (node_stack st f))"

text \<open>A return address inside the checked bytes of an entry of the list of active
  functions.\<close>

definition in_use :: "kenv \<Rightarrow> actv_func \<Rightarrow> addr \<Rightarrow> bool" where
  "in_use env af pc =
     (af_addr af \<le> pc \<and> pc < af_addr af + klp_size_to_check env (af_size af) (af_force af))"

definition ready :: "klp_state \<Rightarrow> func_id \<Rightarrow> bool" where
  "ready st f = (old_func (func_at st f) \<noteq> 0 \<and> func_node (func_at st f) \<noteq> None)"

text \<open>The stacking gates of \<open>__klp_enable_patch\<close> and \<open>__klp_disable_patch\<close>.\<close>

definition enable_out_of_order :: "kenv \<Rightarrow> klp_state \<Rightarrow> patch_id \<Rightarrow> bool" where
  "enable_out_of_order env st p =
     (CONFIG_LIVEPATCH_STACK env \<and>
      (case list_prev_entry (klp_patches st) p of
         None \<Rightarrow> False
       | Some q \<Rightarrow> \<not> enabled (patch_at st q)))"



definition st_prep :: klp_state where
  "st_prep = st_reg\<lparr>klp_func_list := [100],
      func_at := (func_at st_reg)(12 := (func_at st_reg 12)\<lparr>func_node := Some 100\<rparr>),
      node_at := (node_at st_reg)
        (100 := \<lparr>node_old_func = 8192, func_stack = [], arch_data = 8192\<rparr>),
      next_node := 101, rcu_log := [ListAddRcu 100]\<rparr>"



text \<open>Every patched function of the patch can be unpatched, and every patched function
  of the patch belongs to an object of the patch whose \<open>patched\<close> flag is set.\<close>

definition patched_ready :: "klp_state \<Rightarrow> patch_id \<Rightarrow> bool" where
  "patched_ready st p =
     (\<forall>f \<in> set (patch_funcs st p). patched (func_at st f) \<longrightarrow> ready st f)"

definition patched_covered :: "klp_state \<Rightarrow> patch_id \<Rightarrow> bool" where
  "patched_covered st p =
     (\<forall>f \<in> set (patch_funcs st p). patched (func_at st f) \<longrightarrow>
        (\<exists>ob \<in> set (obj_list (patch_at st p)).
           f \<in> set (func_list (object_at st ob)) \<and> obj_patched (object_at st ob)))"

definition none_patched :: "klp_state \<Rightarrow> patch_id \<Rightarrow> bool" where
  "none_patched st p = (\<forall>f \<in> set (patch_funcs st p). \<not> patched (func_at st f))"

definition no_object_patched :: "klp_state \<Rightarrow> patch_id \<Rightarrow> bool" where
  "no_object_patched st p =
     (\<forall>ob \<in> set (obj_list (patch_at st p)). \<not> obj_patched (object_at st ob))"

text \<open>A patch of two functions of vmlinux, \<open>bar\<close> and the second \<open>foo\<close>, and an
  environment in which the instructions at \<open>foo\<close> cannot be written.\<close>

definition st_two :: klp_state where
  "st_two = st_reg\<lparr>
      object_at := (object_at st_reg)
        (11 := (object_at st_reg 11)\<lparr>funcs := Some [12, 13, 0], func_list := [12, 13]\<rparr>),
      func_at := (func_at st_reg)
        (13 := (func_at st_reg 12)\<lparr>old_name := Some ''foo'', old_sympos := 2,
                 old_func := 12288, new_func := 28672\<rparr>)\<rparr>"

definition env_fault :: kenv where
  "env_fault = env0\<lparr>klp_patch_text := \<lambda>a b. if a = 12288 then - EINVAL else 0\<rparr>"

text \<open>What registration reads of a patch descriptor and never writes: the module and the
  object array of a patch, the name and the function array of an object, the old name,
  the new function, the position and the nop marker of a function.\<close>

definition static_eq :: "klp_state \<Rightarrow> klp_state \<Rightarrow> bool" where
  "static_eq st s =
     (klp_root_kobj s = klp_root_kobj st \<and> klp_patches s = klp_patches st \<and>
      (\<forall>q. pmod (patch_at s q) = pmod (patch_at st q) \<and>
           objs (patch_at s q) = objs (patch_at st q)) \<and>
      (\<forall>ob. obj_name (object_at s ob) = obj_name (object_at st ob) \<and>
            funcs (object_at s ob) = funcs (object_at st ob)) \<and>
      (\<forall>f. old_name (func_at s f) = old_name (func_at st f) \<and>
           new_func (func_at s f) = new_func (func_at st f) \<and>
           old_sympos (func_at s f) = old_sympos (func_at st f) \<and>
           nop (func_at s f) = nop (func_at st f)))"

text \<open>The steps of \<open>klp_init_patch\<close> before the patch is put on \<open>klp_patches\<close> leave,
  on top of this, the patches and the function lists of the objects as they are.\<close>

definition init_step :: "klp_state \<Rightarrow> klp_state \<Rightarrow> bool" where
  "init_step st s =
     (static_eq st s \<and> patch_at s = patch_at st \<and>
      (\<forall>ob. func_list (object_at s ob) = func_list (object_at st ob)))"

text \<open>Patch 30 of module \<open>livepatch_c\<close>. In \<open>st_bad\<close> its one object, for the base image,
  has one function, which has a replacement but no old name. In \<open>st_late\<close> an object for
  the module \<open>ext4\<close>, which is not loaded, comes first. In \<open>st_hollow\<close> its one object has
  a function array that holds the terminator only.\<close>

definition st_bad :: klp_state where
  "st_bad = st_boot\<lparr>
      patch_at := (patch_at st_boot)
        (30 := null_patch\<lparr>pmod := Some ''livepatch_c'', objs := Some [31, 0]\<rparr>),
      object_at := (object_at st_boot)
        (31 := null_object\<lparr>funcs := Some [32, 0]\<rparr>,
         33 := null_object\<lparr>obj_name := Some ''ext4'', funcs := Some [34, 0]\<rparr>,
         35 := null_object\<lparr>funcs := Some [0]\<rparr>),
      func_at := (func_at st_boot)
        (32 := null_func\<lparr>new_func := 28672\<rparr>,
         34 := null_func\<lparr>old_name := Some ''ext4_sync_fs'', new_func := 32768\<rparr>)\<rparr>"

definition st_late :: klp_state where
  "st_late = upd_patch 30 (\<lambda>x. x\<lparr>objs := Some [33, 31, 0]\<rparr>) st_bad"

definition st_hollow :: klp_state where
  "st_hollow = upd_patch 30 (\<lambda>x. x\<lparr>objs := Some [35, 0]\<rparr>) st_bad"


text \<open>The base image has a second name, \<open>bar_alias\<close>, for the function \<open>bar\<close> at address
  8192. Patch 50 of module \<open>livepatch_d\<close> replaces both names, by two functions.
  \<open>st_alias_boot\<close> is the state before it is registered, \<open>st_alias\<close> the state once it is
  registered, \<open>st_alias_prep\<close> the state \<open>klp_mem_prepare\<close> leaves: both functions point
  to node 100. In \<open>env_alias\<close> one CPU is inside \<open>bar\<close> (address 8200); in
  \<open>env_alias_probe\<close> no CPU is, and a kprobe sits at address 8200.\<close>

definition env_alias :: kenv where
  "env_alias = env0\<lparr>
      vmlinux_syms := [(''foo'', 4096), (''bar'', 8192), (''bar_alias'', 8192),
                       (''foo'', 12288), (''zero'', 0)],
      arch_klp_check_calltrace := stack_walker [[8200]]\<rparr>"

definition env_alias_probe :: kenv where
  "env_alias_probe = env_alias\<lparr>arch_klp_check_calltrace := stack_walker [],
      get_kprobe := (\<lambda>a. a = 8200)\<rparr>"

definition st_alias_boot :: klp_state where
  "st_alias_boot = st_boot\<lparr>
      patch_at := (patch_at st_boot)
        (50 := null_patch\<lparr>pmod := Some ''livepatch_d'', objs := Some [51, 0]\<rparr>),
      object_at := (object_at st_boot)(51 := null_object\<lparr>funcs := Some [52, 53, 0]\<rparr>),
      func_at := (func_at st_boot)
        (52 := null_func\<lparr>old_name := Some ''bar'', new_func := 36864\<rparr>,
         53 := null_func\<lparr>old_name := Some ''bar_alias'', new_func := 40960\<rparr>)\<rparr>"

definition st_alias :: klp_state where
  "st_alias = st_alias_boot\<lparr>klp_patches := [50],
      patch_at := (patch_at st_alias_boot)(50 := (patch_at st_alias_boot 50)\<lparr>obj_list := [51]\<rparr>),
      object_at := (object_at st_alias_boot)
        (51 := (object_at st_alias_boot 51)\<lparr>func_list := [52, 53]\<rparr>),
      func_at := (func_at st_alias_boot)
        (52 := (func_at st_alias_boot 52)\<lparr>old_func := 8192, old_size := 64, new_size := 64\<rparr>,
         53 := (func_at st_alias_boot 53)\<lparr>old_func := 8192, old_size := 64, new_size := 64\<rparr>)\<rparr>"

definition st_alias_prep :: klp_state where
  "st_alias_prep = st_alias\<lparr>klp_func_list := [100],
      func_at := (func_at st_alias)
        (52 := (func_at st_alias 52)\<lparr>func_node := Some 100\<rparr>,
         53 := (func_at st_alias 53)\<lparr>func_node := Some 100\<rparr>),
      node_at := (node_at st_alias)
        (100 := \<lparr>node_old_func = 8192, func_stack = [], arch_data = 8192\<rparr>),
      next_node := 101, rcu_log := [ListAddRcu 100]\<rparr>"

subsection \<open>Nodes and stacks\<close>

text \<open>A function-site node is on \<open>klp_func_list\<close> exactly when its function stack is not
  empty.\<close>

definition node_inv :: "klp_state \<Rightarrow> bool" where
  "node_inv st = (\<forall>n. (n \<in> set (klp_func_list st)) = (func_stack (node_at st n) \<noteq> []))"

text \<open>The allocator hands out memory that is not in use: the nodes on the list lie below
  the next fresh address.\<close>

definition nodes_fresh :: "klp_state \<Rightarrow> bool" where
  "nodes_fresh st = (\<forall>n \<in> set (klp_func_list st). n < next_node st)"

text \<open>The function is on the stack of the node it points to.\<close>

definition onstack :: "klp_state \<Rightarrow> func_id \<Rightarrow> bool" where
  "onstack st f =
     (\<exists>n. func_node (func_at st f) = Some n \<and> f \<in> set (func_stack (node_at st n)))"

text \<open>A step that keeps the node pointers of the functions and changes the stack of no
  node but those some function of \<open>F\<close> points to.\<close>

definition touch :: "func_id set \<Rightarrow> klp_state \<Rightarrow> klp_state \<Rightarrow> bool" where
  "touch F st s =
     ((\<forall>f. func_node (func_at s f) = func_node (func_at st f)) \<and>
      (\<forall>n. func_stack (node_at s n) \<noteq> func_stack (node_at st n) \<longrightarrow>
           (\<exists>f \<in> F. func_node (func_at st f) = Some n)))"

definition shrink :: "klp_state \<Rightarrow> klp_state \<Rightarrow> bool" where
  "shrink st s = (\<forall>n. set (func_stack (node_at s n)) \<subseteq> set (func_stack (node_at st n)))"

text \<open>A step that only pushes: the node pointers are kept, no stack loses a function, no
  \<open>patched\<close> flag is cleared, and a function whose flag the step sets is on the stack of
  its node afterwards.\<close>

definition pushes :: "klp_state \<Rightarrow> klp_state \<Rightarrow> bool" where
  "pushes st s =
     ((\<forall>f. func_node (func_at s f) = func_node (func_at st f)) \<and>
      (\<forall>n. set (func_stack (node_at st n)) \<subseteq> set (func_stack (node_at s n))) \<and>
      (\<forall>f. patched (func_at st f) \<longrightarrow> patched (func_at s f)) \<and>
      (\<forall>f. patched (func_at s f) \<and> \<not> patched (func_at st f) \<longrightarrow> onstack s f))"

text \<open>A patch at rest: disabled, none of its functions and objects patched, all its
  objects loaded, its function records distinct.\<close>

definition patch_at_rest :: "klp_state \<Rightarrow> patch_id \<Rightarrow> bool" where
  "patch_at_rest st p =
     (\<not> enabled (patch_at st p) \<and> none_patched st p \<and> no_object_patched st p \<and>
      (\<forall>ob \<in> set (obj_list (patch_at st p)). klp_is_object_loaded st ob) \<and>
      distinct (patch_funcs st p))"

section \<open>Symbol resolution: positions and uniqueness\<close>

lemma find_callback_name:
  "klp_find_callback args nm a = (r, args') \<Longrightarrow>
   fa_name args' = fa_name args \<and> fa_pos args' = fa_pos args"
  by (auto simp: klp_find_callback_def klp_match_callback_def Let_def split: if_splits)

lemma module_iter_eq:
  "module_kallsyms_on_each_symbol syms klp_find_callback args =
   kallsyms_on_each_match_symbol syms klp_match_callback (fa_name args) args"
proof (induction syms arbitrary: args)
  case Nil
  show ?case by simp
next
  case (Cons s syms)
  obtain nm a where s: "s = (nm, a)" by (cases s)
  show ?case
  proof (cases "nm = fa_name args")
    case True
    obtain r args' where m: "klp_match_callback args a = (r, args')"
      by (cases "klp_match_callback args a")
    have "fa_name args' = fa_name args"
      using m by (auto simp: klp_match_callback_def Let_def split: if_splits)
    then show ?thesis
      using True m s Cons.IH [of args'] by (simp add: klp_find_callback_def)
  next
    case False
    then show ?thesis
      using s Cons.IH [of args] by (auto simp add: klp_find_callback_def)
  qed
qed

lemma match_iter_scan:
  "kallsyms_on_each_match_symbol syms klp_match_callback name args =
   scan (map snd (filter (\<lambda>s. fst s = name) syms)) args"
  by (induction syms arbitrary: args) (auto split: prod.splits)

lemma scan_pos:
  "fa_pos args = k \<Longrightarrow> fa_count args = c \<Longrightarrow> c < k \<Longrightarrow>
   scan occ args =
     (if k - c \<le> length occ then args\<lparr>fa_addr := occ ! (k - c - 1), fa_count := k\<rparr>
      else if occ = [] then args
      else args\<lparr>fa_addr := last occ, fa_count := c + length occ\<rparr>)"
proof (induction occ arbitrary: args c)
  case Nil
  then show ?case by simp
next
  case (Cons a occ)
  show ?case
  proof (cases "Suc c = k")
    case True
    then show ?thesis
      using Cons.prems by (simp add: klp_match_callback_def Let_def)
  next
    case False
    let ?args' = "args\<lparr>fa_addr := a, fa_count := Suc c\<rparr>"
    have step: "scan (a # occ) args = scan occ ?args'"
      using False Cons.prems by (simp add: klp_match_callback_def Let_def)
    have ih: "scan occ ?args' =
      (if k - Suc c \<le> length occ
       then ?args'\<lparr>fa_addr := occ ! (k - Suc c - 1), fa_count := k\<rparr>
       else if occ = [] then ?args'
       else ?args'\<lparr>fa_addr := last occ, fa_count := Suc c + length occ\<rparr>)"
      using Cons.IH [of ?args' "Suc c"] False Cons.prems by simp
    have idx: "k - c - 1 = Suc (k - Suc c - 1)"
      using False Cons.prems by arith
    show ?thesis
      unfolding step ih using False Cons.prems idx by auto
  qed
qed

lemma scan_zero:
  "fa_pos args = 0 \<Longrightarrow> fa_count args = 0 \<Longrightarrow>
   scan occ args =
     (case occ of [] \<Rightarrow> args
      | [a] \<Rightarrow> args\<lparr>fa_addr := a, fa_count := 1\<rparr>
      | a # b # _ \<Rightarrow> args\<lparr>fa_addr := b, fa_count := 2\<rparr>)"
  by (cases occ; cases "tl occ") (auto simp: klp_match_callback_def Let_def)

lemma find_args:
  "(case objname of
      Some m \<Rightarrow> module_kallsyms_on_each_symbol (module_syms env m) klp_find_callback
                  \<lparr>fa_name = name, fa_addr = 0, fa_count = 0, fa_pos = sympos\<rparr>
    | None \<Rightarrow> kallsyms_on_each_match_symbol (vmlinux_syms env) klp_match_callback name
                  \<lparr>fa_name = name, fa_addr = 0, fa_count = 0, fa_pos = sympos\<rparr>) =
   scan (occurrences env objname name)
     \<lparr>fa_name = name, fa_addr = 0, fa_count = 0, fa_pos = sympos\<rparr>"
  by (cases objname)
     (simp_all add: module_iter_eq match_iter_scan occurrences_def object_syms_def)

lemma klp_find_object_symbol_occ:
  "klp_find_object_symbol env objname name sympos =
     (let occ = occurrences env objname name in
      if sympos = 0
      then (if length occ = 1 \<and> occ ! 0 \<noteq> 0 then (0, occ ! 0) else (- EINVAL, 0))
      else (if sympos \<le> length occ \<and> occ ! (sympos - 1) \<noteq> 0
            then (0, occ ! (sympos - 1)) else (- EINVAL, 0)))"
proof (cases "sympos = 0")
  case True
  show ?thesis
    unfolding klp_find_object_symbol_def find_args Let_def
    using True by (simp add: scan_zero split: list.splits)
next
  case False
  show ?thesis
    unfolding klp_find_object_symbol_def find_args Let_def
    using False by (simp add: scan_pos last_conv_nth)
qed

lemma occ_foo: "occurrences env0 None ''foo'' = [4096, 12288]"
  by (simp add: occurrences_def object_syms_def env0_def)

text \<open>
  Claim C5, as amended. Let \<open>occ\<close> be the addresses of the occurrences of the symbol in
  the object, in table order. A symbol with no occurrence always fails (\<open>-EINVAL\<close>, and 0
  stored through \<open>addr\<close>). With \<open>sympos = 0\<close> the lookup fails when there is more than one
  occurrence; when there is exactly one it returns that occurrence's address, unless the
  address is 0, which \<open>klp_find_object_symbol\<close> takes for "not found". With
  \<open>sympos = k > 0\<close> it succeeds if and only if the \<open>k\<close>-th occurrence exists and its
  address is not 0, and then returns that address.
\<close>

theorem klp_find_object_symbol_positions:
  assumes occ: "occ = occurrences env objname name"
  shows "(occ = [] \<longrightarrow> (\<forall>k. klp_find_object_symbol env objname name k = (- EINVAL, 0))) \<and>
         (length occ > 1 \<longrightarrow> klp_find_object_symbol env objname name 0 = (- EINVAL, 0)) \<and>
         (length occ = 1 \<longrightarrow>
            klp_find_object_symbol env objname name 0 =
              (if occ ! 0 \<noteq> 0 then (0, occ ! 0) else (- EINVAL, 0))) \<and>
         (\<forall>k>0. klp_find_object_symbol env objname name k =
              (if k \<le> length occ \<and> occ ! (k - 1) \<noteq> 0 then (0, occ ! (k - 1))
               else (- EINVAL, 0)))"
proof (intro conjI impI allI)
  fix k
  assume "occ = []"
  then show "klp_find_object_symbol env objname name k = (- EINVAL, 0)"
    using occ by (simp add: klp_find_object_symbol_occ Let_def)
next
  assume "length occ > 1"
  then show "klp_find_object_symbol env objname name 0 = (- EINVAL, 0)"
    using occ by (simp add: klp_find_object_symbol_occ Let_def)
next
  assume "length occ = 1"
  then show "klp_find_object_symbol env objname name 0 =
      (if occ ! 0 \<noteq> 0 then (0, occ ! 0) else (- EINVAL, 0))"
    using occ by (simp add: klp_find_object_symbol_occ Let_def)
next
  fix k :: nat
  assume "0 < k"
  then show "klp_find_object_symbol env objname name k =
      (if k \<le> length occ \<and> occ ! (k - 1) \<noteq> 0 then (0, occ ! (k - 1)) else (- EINVAL, 0))"
    using occ by (simp add: klp_find_object_symbol_occ Let_def)
qed

text \<open>The symbol \<open>foo\<close> occurs twice in the base image of \<open>env0\<close>: position 0 is
  ambiguous, positions 1 and 2 give the two addresses, position 3 does not exist.\<close>

theorem klp_find_object_symbol_positions_witness:
  "occurrences env0 None ''foo'' = [4096, 12288] \<and>
   klp_find_object_symbol env0 None ''foo'' 0 = (- EINVAL, 0) \<and>
   klp_find_object_symbol env0 None ''foo'' 1 = (0, 4096) \<and>
   klp_find_object_symbol env0 None ''foo'' 2 = (0, 12288) \<and>
   klp_find_object_symbol env0 None ''foo'' 3 = (- EINVAL, 0)"
proof -
  note t = klp_find_object_symbol_positions [OF occ_foo [symmetric]]
  have z: "klp_find_object_symbol env0 None ''foo'' 0 = (- EINVAL, 0)"
    using t by simp
  have k: "\<And>k. 0 < k \<Longrightarrow> klp_find_object_symbol env0 None ''foo'' k =
      (if k \<le> length [4096, 12288 :: nat] \<and> [4096, 12288] ! (k - 1) \<noteq> (0 :: nat)
       then (0, [4096, 12288] ! (k - 1)) else (- EINVAL, 0))"
    using t by blast
  show ?thesis
    using occ_foo z k [of 1] k [of 2] k [of 3] by simp
qed

text \<open>
  Claim C5 as stated fails: the symbol \<open>zero\<close> has exactly one occurrence in the base
  image of \<open>env0\<close>, at address 0, and the lookup fails both with \<open>sympos = 0\<close> and with
  \<open>sympos = 1\<close>.
\<close>

theorem klp_find_object_symbol_unique_counterexample:
  "occurrences env0 None ''zero'' = [0] \<and>
   klp_find_object_symbol env0 None ''zero'' 0 = (- EINVAL, 0) \<and>
   klp_find_object_symbol env0 None ''zero'' 1 = (- EINVAL, 0)"
proof -
  have o: "occurrences env0 None ''zero'' = [0]"
    by (simp add: occurrences_def object_syms_def env0_def)
  show ?thesis
    using o by (simp add: klp_find_object_symbol_occ Let_def)
qed

section \<open>Evaluation of the examples\<close>

lemmas upd_defs = upd_patch_def upd_obj_def upd_func_def upd_node_def

lemmas model_defs =
  upd_defs klp_is_module_def klp_is_object_loaded_def klp_initialized_def
  klp_for_each_object_static_def klp_for_each_func_static_def module_get_def module_put_def
  klp_is_patch_registered_def klp_free_funcs_def klp_free_object_def klp_free_objects_def
  klp_free_patch_start_def klp_init_func_early_def klp_init_object_early_def
  klp_init_patch_early_def name_of_def klp_init_func_def klp_init_func_loaded_def
  klp_init_object_loaded_def klp_find_object_module_def klp_init_object_out_def
  klp_init_object_def patch_funcs_def check_address_conflict_def klp_init_patch_def
  klp_register_patch_def klp_unregister_patch_def klp_size_to_check_def
  klp_compare_address_def add_func_to_list_def node_stack_def stack_top_def
  arch_klp_check_activeness_func_def klp_check_activeness_func_def klp_check_calltrace_def
  stack_walker_def klp_find_func_node_def klp_add_func_node_def klp_del_func_node_def
  synchronize_rcu_def arch_klp_mem_free_def func_node_alloc_def func_node_free_def
  klp_mem_recycle_def klp_mem_prepare_def klp_check_patch_kprobed_def
  arch_klp_patch_func_def arch_klp_unpatch_func_def klp_unpatch_func_def klp_patch_func_def
  klp_unpatch_object_def klp_patch_object_def klp_unpatch_objects_def disable_patch_def
  enable_patch_def klp_try_enable_patch_def klp_try_disable_patch_def klp_stop_machine_def
  klp_disable_patch'_def klp_enable_patch'_def enabled_store_def
  null_func_def null_object_def null_patch_def

lemma bar_sym: "klp_find_object_symbol env0 None ''bar'' 0 = (0, 8192)"
  by (simp add: klp_find_object_symbol_occ occurrences_def object_syms_def env0_def)

lemma env0_simps:
  "kobject_add env0 k = 0" "is_livepatch_module env0 m" "jump_label_register env0 m = 0"
  "klp_static_call_register env0 m = 0" "jump_label_text_reserved env0 a b = 0"
  "static_call_text_reserved env0 a b = 0" "kallsyms_lookup_size_offset env0 a = (if a = 0 then None else Some 64)"
  "KLP_MAX_REPLACE_SIZE env0 = 16" "MODULE_NAME_LEN env0 = 56" "try_module_get env0 m"
  "\<not> get_kprobe env0 a" "CONFIG_LIVEPATCH_STACK env0" "CONFIG_PREEMPTION env0"
  "CONFIG_LIVEPATCH_RESTRICT_KPROBE env0"
  "arch_check_jump_insn env0 a" "kzalloc_atomic env0 a" "arch_klp_mem_alloc env0 i"
  "arch_klp_save_old_code env0 a = (0, a)" "klp_patch_text env0 a b = 0"
  "arch_klp_check_calltrace env0 = stack_walker []"
  by (simp_all add: env0_def)

lemma st_reg_run:
  "klp_register_patch env0 (snd (klp_register_patch env0 st_boot (Some 10))) (Some 20) = (0, st_reg)"
  by (simp add: st_reg_def st_boot_def model_defs env0_simps bar_sym)

lemma st_en1_run: "klp_enable_patch' env0 st_reg 10 = Some (0, st_en1)"
  by (simp add: st_en1_def st_reg_def st_boot_def model_defs env0_simps list_ex_iff)

lemma st_en12_run: "klp_enable_patch' env0 st_en1 20 = Some (0, st_en12)"
  by (simp add: st_en12_def st_en1_def st_reg_def st_boot_def model_defs env0_simps list_ex_iff)

lemma st_simps:
  "klp_patches st_reg = [10, 20]" "klp_patches st_en1 = [10, 20]" "klp_patches st_en12 = [10, 20]"
  "enabled (patch_at st_reg p) = False"
  "enabled (patch_at st_en1 p) = (p = 10)"
  "enabled (patch_at st_en12 p) = (p = 10 \<or> p = 20)"
  "func_list (object_at st_reg 11) = [12]"
  "obj_name (object_at st_reg 11) = None"
  "old_name (func_at st_reg 12) = Some ''bar''"
  "old_sympos (func_at st_reg 12) = 0"
  "patched (func_at st_en1 12)" "obj_patched (object_at st_en1 11)"
  by (simp_all add: st_en12_def st_en1_def st_reg_def st_boot_def null_func_def null_object_def null_patch_def)

section \<open>What each step leaves unchanged\<close>

lemma mem_step_refl: "mem_step st st"
  by (simp add: mem_step_def)

lemma func_node_upd_trans:
  "(b :: klp_func) = a\<lparr>func_node := x\<rparr> \<Longrightarrow> c = b\<lparr>func_node := y\<rparr> \<Longrightarrow> c = a\<lparr>func_node := func_node c\<rparr>"
  by simp

lemma mem_step_trans: "mem_step a b \<Longrightarrow> mem_step b c \<Longrightarrow> mem_step a c"
  unfolding mem_step_def
  by (auto intro: func_node_upd_trans)

lemma patch_step_refl: "patch_step st st"
  by (simp add: patch_step_def)

lemma patched_upd_trans:
  "(b :: klp_func) = a\<lparr>patched := x\<rparr> \<Longrightarrow> c = b\<lparr>patched := y\<rparr> \<Longrightarrow> c = a\<lparr>patched := patched c\<rparr>"
  by simp

lemma obj_patched_upd_trans:
  "(b :: klp_object) = a\<lparr>obj_patched := x\<rparr> \<Longrightarrow> c = b\<lparr>obj_patched := y\<rparr> \<Longrightarrow>
   c = a\<lparr>obj_patched := obj_patched c\<rparr>"
  by simp

lemma func_stack_upd_trans:
  "(b :: klp_func_node) = a\<lparr>func_stack := x\<rparr> \<Longrightarrow> c = b\<lparr>func_stack := y\<rparr> \<Longrightarrow>
   c = a\<lparr>func_stack := func_stack c\<rparr>"
  by simp

lemma enabled_upd_trans:
  "(b :: klp_patch) = a\<lparr>enabled := x\<rparr> \<Longrightarrow> c = b\<lparr>enabled := y\<rparr> \<Longrightarrow>
   c = a\<lparr>enabled := enabled c\<rparr>"
  by simp

lemma patch_step_trans: "patch_step a b \<Longrightarrow> patch_step b c \<Longrightarrow> patch_step a c"
  unfolding patch_step_def
  by (auto intro: patched_upd_trans obj_patched_upd_trans func_stack_upd_trans enabled_upd_trans)

lemma mem_stepD:
  assumes "mem_step st st'"
  shows "klp_patches st' = klp_patches st" "patch_at st' = patch_at st"
    "object_at st' = object_at st" "refcnt st' = refcnt st" "text_mem st' = text_mem st"
    "klp_root_kobj st' = klp_root_kobj st"
    "patched (func_at st' f) = patched (func_at st f)"
    "old_func (func_at st' f) = old_func (func_at st f)"
    "old_size (func_at st' f) = old_size (func_at st f)"
    "new_func (func_at st' f) = new_func (func_at st f)"
    "new_size (func_at st' f) = new_size (func_at st f)"
    "force (func_at st' f) = force (func_at st f)"
    "old_name (func_at st' f) = old_name (func_at st f)"
    "patch_funcs st' p = patch_funcs st p"
proof -
  have e: "func_at st' f = (func_at st f)\<lparr>func_node := func_node (func_at st' f)\<rparr>"
    using assms by (simp add: mem_step_def)
  show "klp_patches st' = klp_patches st" "patch_at st' = patch_at st"
    "object_at st' = object_at st" "refcnt st' = refcnt st" "text_mem st' = text_mem st"
    "klp_root_kobj st' = klp_root_kobj st"
    using assms by (simp_all add: mem_step_def)
  then show "patch_funcs st' p = patch_funcs st p"
    by (simp add: patch_funcs_def)
  show "patched (func_at st' f) = patched (func_at st f)"
    "old_func (func_at st' f) = old_func (func_at st f)"
    "old_size (func_at st' f) = old_size (func_at st f)"
    "new_func (func_at st' f) = new_func (func_at st f)"
    "new_size (func_at st' f) = new_size (func_at st f)"
    "force (func_at st' f) = force (func_at st f)"
    "old_name (func_at st' f) = old_name (func_at st f)"
    by (subst e, simp)+
qed

lemma patch_stepD:
  assumes "patch_step st st'"
  shows "klp_patches st' = klp_patches st" "patch_at st' = patch_at st"
    "klp_func_list st' = klp_func_list st" "next_node st' = next_node st"
    "refcnt st' = refcnt st" "rcu_log st' = rcu_log st"
    "klp_root_kobj st' = klp_root_kobj st"
    "func_list (object_at st' ob) = func_list (object_at st ob)"
    "obj_name (object_at st' ob) = obj_name (object_at st ob)"
    "obj_mod (object_at st' ob) = obj_mod (object_at st ob)"
    "old_func (func_at st' f) = old_func (func_at st f)"
    "old_size (func_at st' f) = old_size (func_at st f)"
    "new_func (func_at st' f) = new_func (func_at st f)"
    "new_size (func_at st' f) = new_size (func_at st f)"
    "force (func_at st' f) = force (func_at st f)"
    "old_name (func_at st' f) = old_name (func_at st f)"
    "func_node (func_at st' f) = func_node (func_at st f)"
    "node_old_func (node_at st' n) = node_old_func (node_at st n)"
    "arch_data (node_at st' n) = arch_data (node_at st n)"
    "patch_funcs st' p = patch_funcs st p"
    "klp_is_object_loaded st' ob = klp_is_object_loaded st ob"
proof -
  have e: "func_at st' f = (func_at st f)\<lparr>patched := patched (func_at st' f)\<rparr>"
    and o: "\<And>ob. object_at st' ob = (object_at st ob)\<lparr>obj_patched := obj_patched (object_at st' ob)\<rparr>"
    and n: "node_at st' n = (node_at st n)\<lparr>func_stack := func_stack (node_at st' n)\<rparr>"
    using assms by (simp_all add: patch_step_def)
  show "klp_patches st' = klp_patches st" and pa: "patch_at st' = patch_at st"
    "klp_func_list st' = klp_func_list st" "next_node st' = next_node st"
    "refcnt st' = refcnt st" "rcu_log st' = rcu_log st"
    "klp_root_kobj st' = klp_root_kobj st"
    using assms by (simp_all add: patch_step_def)
  show fl: "\<And>ob. func_list (object_at st' ob) = func_list (object_at st ob)"
    and on: "obj_name (object_at st' ob) = obj_name (object_at st ob)"
    and om: "obj_mod (object_at st' ob) = obj_mod (object_at st ob)"
    by (subst o, simp)+
  show "old_func (func_at st' f) = old_func (func_at st f)"
    "old_size (func_at st' f) = old_size (func_at st f)"
    "new_func (func_at st' f) = new_func (func_at st f)"
    "new_size (func_at st' f) = new_size (func_at st f)"
    "force (func_at st' f) = force (func_at st f)"
    "old_name (func_at st' f) = old_name (func_at st f)"
    "func_node (func_at st' f) = func_node (func_at st f)"
    by (subst e, simp)+
  show "node_old_func (node_at st' n) = node_old_func (node_at st n)"
    "arch_data (node_at st' n) = arch_data (node_at st n)"
    by (subst n, simp)+
  show "patch_funcs st' p = patch_funcs st p"
    by (simp add: patch_funcs_def pa fl)
  show "klp_is_object_loaded st' ob = klp_is_object_loaded st ob"
    by (simp add: klp_is_object_loaded_def on om)
qed

lemma patch_step_en_step: "patch_step st st' \<Longrightarrow> en_step p st st'"
  by (simp add: patch_step_def en_step_def)

lemma en_step_refl: "en_step p st st"
  by (simp add: en_step_def)

lemma en_step_trans:
  assumes ab: "en_step p a b" and bc: "en_step p b c"
  shows "en_step p a c"
proof -
  have others: "\<forall>q. q \<noteq> p \<longrightarrow> patch_at c q = patch_at a q"
    using ab bc by (simp add: en_step_def)
  have self: "patch_at c p = (patch_at a p)\<lparr>enabled := enabled (patch_at c p)\<rparr>"
    using ab bc by (auto simp: en_step_def intro: enabled_upd_trans)
  have rest: "klp_root_kobj c = klp_root_kobj a \<and> klp_patches c = klp_patches a \<and>
      klp_func_list c = klp_func_list a \<and> next_node c = next_node a \<and>
      rcu_log c = rcu_log a \<and>
      (\<forall>ob. object_at c ob = (object_at a ob)\<lparr>obj_patched := obj_patched (object_at c ob)\<rparr>) \<and>
      (\<forall>f. func_at c f = (func_at a f)\<lparr>patched := patched (func_at c f)\<rparr>) \<and>
      (\<forall>n. node_at c n = (node_at a n)\<lparr>func_stack := func_stack (node_at c n)\<rparr>)"
    using ab bc unfolding en_step_def
    by (auto intro: patched_upd_trans obj_patched_upd_trans func_stack_upd_trans)
  show ?thesis
    unfolding en_step_def using others self rest by blast
qed

lemma en_stepD:
  assumes "en_step p st st'"
  shows "klp_patches st' = klp_patches st"
    "klp_func_list st' = klp_func_list st" "next_node st' = next_node st"
    "rcu_log st' = rcu_log st"
    "klp_root_kobj st' = klp_root_kobj st"
    "q \<noteq> p \<Longrightarrow> patch_at st' q = patch_at st q"
    "obj_list (patch_at st' q) = obj_list (patch_at st q)"
    "pmod (patch_at st' q) = pmod (patch_at st q)"
    "object_at st' ob = (object_at st ob)\<lparr>obj_patched := obj_patched (object_at st' ob)\<rparr>"
    "func_at st' f = (func_at st f)\<lparr>patched := patched (func_at st' f)\<rparr>"
    "node_at st' n = (node_at st n)\<lparr>func_stack := func_stack (node_at st' n)\<rparr>"
proof -
  have p: "\<And>q. patch_at st' q =
             (if q = p then (patch_at st q)\<lparr>enabled := enabled (patch_at st' q)\<rparr>
              else patch_at st q)"
    using assms by (auto simp add: en_step_def)
  show "klp_patches st' = klp_patches st"
    "klp_func_list st' = klp_func_list st" "next_node st' = next_node st"
    "rcu_log st' = rcu_log st"
    "klp_root_kobj st' = klp_root_kobj st"
    "object_at st' ob = (object_at st ob)\<lparr>obj_patched := obj_patched (object_at st' ob)\<rparr>"
    "func_at st' f = (func_at st f)\<lparr>patched := patched (func_at st' f)\<rparr>"
    "node_at st' n = (node_at st n)\<lparr>func_stack := func_stack (node_at st' n)\<rparr>"
    using assms by (simp_all add: en_step_def)
  show "q \<noteq> p \<Longrightarrow> patch_at st' q = patch_at st q"
    using p [of q] by simp
  show "obj_list (patch_at st' q) = obj_list (patch_at st q)"
    "pmod (patch_at st' q) = pmod (patch_at st q)"
    by (subst p, simp)+
qed

lemma en_step_patch_funcs: "en_step p st st' \<Longrightarrow> patch_funcs st' q = patch_funcs st q"
proof -
  assume a: "en_step p st st'"
  have "\<And>ob. func_list (object_at st' ob) = func_list (object_at st ob)"
    by (subst en_stepD(9) [OF a], simp)
  then show ?thesis
    by (simp add: patch_funcs_def en_stepD(7) [OF a])
qed

lemma func_node_alloc_mem_step:
  "func_node_alloc env st f = (r, st') \<Longrightarrow> func_at st' = func_at st \<and> mem_step st st'"
  by (auto simp: func_node_alloc_def mem_step_def Let_def klp_add_func_node_def
        arch_klp_mem_free_def split: option.splits prod.splits if_splits)

lemma set_func_node_mem_step: "mem_step st (upd_func f (\<lambda>x. x\<lparr>func_node := r\<rparr>) st)"
  by (simp add: mem_step_def upd_defs)

lemma func_node_free_mem_step: "func_node_free f st = Some s \<Longrightarrow> mem_step st s"
  by (auto simp: func_node_free_def mem_step_def upd_defs Let_def klp_del_func_node_def
        synchronize_rcu_def arch_klp_mem_free_def split: option.splits if_splits)

lemma klp_mem_recycle_funcs_mem_step:
  "klp_mem_recycle_funcs fs st = Some s \<Longrightarrow> mem_step st s"
proof (induction fs arbitrary: st)
  case Nil
  then show ?case by (simp add: mem_step_refl)
next
  case (Cons f fs)
  then obtain s1 where a: "func_node_free f st = Some s1"
    and b: "klp_mem_recycle_funcs fs s1 = Some s"
    by (auto split: option.splits)
  from mem_step_trans [OF func_node_free_mem_step [OF a] Cons.IH [OF b]] show ?case .
qed

lemma klp_mem_recycle_mem_step: "klp_mem_recycle st p = Some s \<Longrightarrow> mem_step st s"
  by (simp add: klp_mem_recycle_def klp_mem_recycle_funcs_mem_step)

lemma klp_mem_prepare_funcs_mem_step:
  "klp_mem_prepare_funcs env st fs = (ok, st') \<Longrightarrow> mem_step st st'"
proof (induction fs arbitrary: st)
  case Nil
  then show ?case by (simp add: mem_step_refl)
next
  case (Cons f fs)
  obtain r st1 where a: "func_node_alloc env st f = (r, st1)"
    by (cases "func_node_alloc env st f")
  let ?st2 = "upd_func f (\<lambda>x. x\<lparr>func_node := r\<rparr>) st1"
  have s2: "mem_step st ?st2"
    using mem_step_trans [OF _ set_func_node_mem_step] func_node_alloc_mem_step [OF a] by blast
  show ?case
  proof (cases r)
    case None
    then have "st' = ?st2" using Cons.prems a by (simp add: Let_def)
    then show ?thesis using s2 by simp
  next
    case (Some n)
    then have "klp_mem_prepare_funcs env ?st2 fs = (ok, st')"
      using Cons.prems a by (simp add: Let_def)
    from mem_step_trans [OF s2 Cons.IH [OF this]] show ?thesis .
  qed
qed

lemma klp_mem_prepare_mem_step:
  assumes "klp_mem_prepare env st p = Some (ret, st')"
  shows "mem_step st st'"
proof (cases "klp_mem_prepare_funcs env st (patch_funcs st p)")
  case (Pair ok st1)
  note m = klp_mem_prepare_funcs_mem_step [OF Pair]
  show ?thesis
  proof (cases ok)
    case True
    then have "st' = st1" using assms Pair by (simp add: klp_mem_prepare_def)
    then show ?thesis using m by simp
  next
    case False
    then have "klp_mem_recycle st1 p = Some st'"
      using assms Pair by (auto simp: klp_mem_prepare_def)
    from mem_step_trans [OF m klp_mem_recycle_mem_step [OF this]] show ?thesis .
  qed
qed

lemma arch_klp_patch_func_patch_step:
  "arch_klp_patch_func env st f = (r, st') \<Longrightarrow> func_at st' = func_at st \<and> patch_step st st'"
  by (auto simp: arch_klp_patch_func_def patch_step_def Let_def upd_defs
        split: option.splits if_splits)

lemma klp_patch_func_patch_step:
  "klp_patch_func env st f = (r, st') \<Longrightarrow> patch_step st st'"
  by (auto simp: klp_patch_func_def arch_klp_patch_func_def patch_step_def Let_def upd_defs
        split: option.splits if_splits prod.splits)

lemma klp_unpatch_func_patch_step: "patch_step st (klp_unpatch_func f st)"
  by (auto simp: klp_unpatch_func_def arch_klp_unpatch_func_def patch_step_def Let_def upd_defs
        split: option.splits)

lemma fold_unpatch_patch_step:
  "patch_step st (fold (\<lambda>f s. if patched (func_at s f) then klp_unpatch_func f s else s) fs st)"
proof (induction fs arbitrary: st)
  case Nil
  show ?case by (simp add: patch_step_refl)
next
  case (Cons f fs)
  show ?case
    using patch_step_trans [OF klp_unpatch_func_patch_step Cons.IH, of st f] Cons.IH [of st]
    by simp
qed

lemma set_obj_patched_patch_step: "patch_step st (upd_obj ob (\<lambda>x. x\<lparr>obj_patched := b\<rparr>) st)"
  by (simp add: patch_step_def upd_defs)

lemma klp_unpatch_object_patch_step: "patch_step st (klp_unpatch_object ob st)"
  unfolding klp_unpatch_object_def
  by (rule patch_step_trans [OF fold_unpatch_patch_step set_obj_patched_patch_step])

lemma klp_patch_funcs_patch_step:
  "klp_patch_funcs env st ob fs = (r, st') \<Longrightarrow> patch_step st st'"
proof (induction fs arbitrary: st)
  case Nil
  then show ?case by (simp add: patch_step_refl)
next
  case (Cons f fs)
  obtain r1 st1 where a: "klp_patch_func env st f = (r1, st1)"
    by (cases "klp_patch_func env st f")
  note s1 = klp_patch_func_patch_step [OF a]
  show ?case
  proof (cases "r1 = 0")
    case True
    then have "klp_patch_funcs env st1 ob fs = (r, st')"
      using Cons.prems a by simp
    from patch_step_trans [OF s1 Cons.IH [OF this]] show ?thesis .
  next
    case False
    then have "st' = klp_unpatch_object ob st1"
      using Cons.prems a by simp
    then show ?thesis
      using patch_step_trans [OF s1 klp_unpatch_object_patch_step] by simp
  qed
qed

lemma klp_patch_object_patch_step:
  "klp_patch_object env st ob = (r, st') \<Longrightarrow> patch_step st st'"
  by (auto simp: klp_patch_object_def split: if_splits prod.splits
        dest!: klp_patch_funcs_patch_step
        intro: patch_step_refl patch_step_trans [OF _ set_obj_patched_patch_step])

lemma klp_unpatch_objects_patch_step: "patch_step st (klp_unpatch_objects st p)"
proof -
  have "patch_step st
      (fold (\<lambda>ob s. if obj_patched (object_at s ob) then klp_unpatch_object ob s else s) obs st)"
    for obs
  proof (induction obs arbitrary: st)
    case Nil
    show ?case by (simp add: patch_step_refl)
  next
    case (Cons ob obs)
    show ?case
      using patch_step_trans [OF klp_unpatch_object_patch_step Cons.IH, of st ob] Cons.IH [of st]
      by simp
  qed
  then show ?thesis by (simp add: klp_unpatch_objects_def)
qed

lemma set_enabled_en_step: "en_step p st (upd_patch p (\<lambda>x. x\<lparr>enabled := b\<rparr>) st)"
  by (simp add: en_step_def upd_defs)

lemma module_put_en_step: "en_step p st (module_put st m)"
  by (simp add: en_step_def module_put_def split: option.splits)

lemma module_get_en_step: "module_get env st m = (b, st') \<Longrightarrow> en_step p st st'"
  by (auto simp: en_step_def module_get_def split: option.splits if_splits)

lemma disable_patch_en_step: "en_step p st (snd (disable_patch st p))"
  unfolding disable_patch_def Let_def snd_conv
  by (rule en_step_trans [OF en_step_trans [OF patch_step_en_step
          [OF klp_unpatch_objects_patch_step] set_enabled_en_step] module_put_en_step])

lemma disable_patch_result:
  "fst (disable_patch st p) = 0 \<and> \<not> enabled (patch_at (snd (disable_patch st p)) p)"
  by (simp add: disable_patch_def Let_def module_put_def upd_defs split: option.splits)

lemma enable_patch_objects_en_step:
  "enable_patch_objects env st p obs = (r, st') \<Longrightarrow>
   en_step p st st' \<and> enabled (patch_at st' p) = (r = 0 \<and> enabled (patch_at st p))"
proof (induction obs arbitrary: st)
  case Nil
  then show ?case by (auto simp add: en_step_refl)
next
  case (Cons ob obs)
  show ?case
  proof (cases "klp_is_object_loaded st ob")
    case False
    then show ?thesis using Cons by simp
  next
    case True
    obtain r1 st1 where a: "klp_patch_object env st ob = (r1, st1)"
      by (cases "klp_patch_object env st ob")
    note s1 = klp_patch_object_patch_step [OF a]
    show ?thesis
    proof (cases "r1 = 0")
      case True
      then have "enable_patch_objects env st1 p obs = (r, st')"
        using Cons.prems a \<open>klp_is_object_loaded st ob\<close> by simp
      from Cons.IH [OF this] en_step_trans [OF patch_step_en_step [OF s1]]
      show ?thesis by (auto simp: patch_stepD(2) [OF s1])
    next
      case False
      then have "st' = snd (disable_patch st1 p)" and "r = r1"
        using Cons.prems a \<open>klp_is_object_loaded st ob\<close> by simp_all
      then show ?thesis
        using en_step_trans [OF patch_step_en_step [OF s1] disable_patch_en_step]
          disable_patch_result [of st1 p] False
        by simp
    qed
  qed
qed

lemma enable_patch_en_step:
  assumes "enable_patch env st p = (r, st')" and "\<not> enabled (patch_at st p)"
  shows "en_step p st st' \<and> enabled (patch_at st' p) = (r = 0)"
proof (cases "module_get env st (pmod (patch_at st p))")
  case (Pair b st1)
  note g = module_get_en_step [OF Pair, of p]
  show ?thesis
  proof (cases b)
    case False
    then have "st' = st1" "r = - ENODEV"
      using assms Pair by (simp_all add: enable_patch_def)
    then show ?thesis
      using g assms(2) en_stepD(6) [OF g] Pair False
      by (auto simp: module_get_def split: option.splits if_splits)
  next
    case True
    let ?st2 = "upd_patch p (\<lambda>x. x\<lparr>enabled := True\<rparr>) st1"
    have run: "enable_patch_objects env ?st2 p (obj_list (patch_at st1 p)) = (r, st')"
      using assms Pair True by (simp add: enable_patch_def)
    have e2: "enabled (patch_at ?st2 p)" by (simp add: upd_defs)
    from enable_patch_objects_en_step [OF run] e2
      en_step_trans [OF en_step_trans [OF g set_enabled_en_step]]
    show ?thesis by blast
  qed
qed

lemma klp_try_enable_patch_en_step:
  assumes "klp_try_enable_patch env st p = (r, st')" and "\<not> enabled (patch_at st p)"
  shows "en_step p st st' \<and> enabled (patch_at st' p) = (r = 0)"
proof (cases "klp_check_patch_kprobed env st p \<or> klp_check_calltrace env st p True \<noteq> 0")
  case True
  then have "st' = st" "r \<noteq> 0"
    using assms(1) by (auto simp: klp_try_enable_patch_def Let_def split: if_splits)
  then show ?thesis using assms(2) by (simp add: en_step_refl)
next
  case False
  then have "enable_patch env st p = (r, st')"
    using assms(1) by (auto simp: klp_try_enable_patch_def Let_def split: if_splits)
  from enable_patch_en_step [OF this assms(2)] show ?thesis .
qed

lemma klp_try_disable_patch_en_step:
  assumes "klp_try_disable_patch env st p = (r, st')" and "enabled (patch_at st p)"
  shows "en_step p st st' \<and> enabled (patch_at st' p) = (r \<noteq> 0)"
proof (cases "klp_check_patch_kprobed env st p \<or> klp_check_calltrace env st p False \<noteq> 0")
  case True
  then have "st' = st" "r \<noteq> 0"
    using assms(1) by (auto simp: klp_try_disable_patch_def Let_def split: if_splits)
  then show ?thesis using assms(2) by (simp add: en_step_refl)
next
  case False
  then have "(r, st') = disable_patch st p"
    using assms(1) by (auto simp: klp_try_disable_patch_def Let_def split: if_splits)
  then have "r = fst (disable_patch st p)" "st' = snd (disable_patch st p)"
    by (metis fst_conv, metis snd_conv)
  then show ?thesis
    using disable_patch_en_step [of p st] disable_patch_result [of st p] by simp
qed

section \<open>Applying a patch twice\<close>

text \<open>
  Claim C10. \<open>klp_patch_func\<close> on a function whose \<open>patched\<close> flag is set returns 0
  and leaves the state as it is (the architecture's patcher is not run: nothing is
  pushed, no instruction is rewritten), and so does \<open>klp_patch_object\<close> on an object
  whose \<open>patched\<close> flag is set; a second application after a successful one returns 0
  and changes no state.
\<close>

theorem klp_patch_idempotent:
  "(patched (func_at st f) \<longrightarrow> klp_patch_func env st f = (0, st)) \<and>
   (obj_patched (object_at st ob) \<longrightarrow> klp_patch_object env st ob = (0, st)) \<and>
   (fst (klp_patch_func env st f) = 0 \<longrightarrow>
      klp_patch_func env (snd (klp_patch_func env st f)) f = (0, snd (klp_patch_func env st f))) \<and>
   (fst (klp_patch_object env st ob) = 0 \<longrightarrow>
      klp_patch_object env (snd (klp_patch_object env st ob)) ob =
        (0, snd (klp_patch_object env st ob)))"
proof (intro conjI impI)
  assume "patched (func_at st f)"
  then show "klp_patch_func env st f = (0, st)"
    by (simp add: klp_patch_func_def)
next
  assume "obj_patched (object_at st ob)"
  then show "klp_patch_object env st ob = (0, st)"
    by (simp add: klp_patch_object_def)
next
  assume ok: "fst (klp_patch_func env st f) = 0"
  have "patched (func_at (snd (klp_patch_func env st f)) f)"
    using ok by (auto simp: klp_patch_func_def Let_def upd_defs split: prod.splits if_splits)
  then show "klp_patch_func env (snd (klp_patch_func env st f)) f =
      (0, snd (klp_patch_func env st f))"
    by (simp add: klp_patch_func_def)
next
  assume ok: "fst (klp_patch_object env st ob) = 0"
  have "obj_patched (object_at (snd (klp_patch_object env st ob)) ob)"
    using ok by (auto simp: klp_patch_object_def upd_defs split: prod.splits if_splits)
  then show "klp_patch_object env (snd (klp_patch_object env st ob)) ob =
      (0, snd (klp_patch_object env st ob))"
    by (simp add: klp_patch_object_def)
qed

text \<open>In \<open>st_en1\<close> function 12 and object 11 are patched; in the state
  \<open>klp_mem_prepare\<close> leaves from \<open>st_reg\<close> they are not, and patching succeeds.\<close>

theorem klp_patch_idempotent_witness:
  "patched (func_at st_en1 12) \<and> obj_patched (object_at st_en1 11) \<and>
   klp_patch_func env0 st_en1 12 = (0, st_en1) \<and>
   klp_patch_object env0 st_en1 11 = (0, st_en1) \<and>
   fst (klp_patch_func env0 (snd (the (klp_mem_prepare env0 st_reg 10))) 12) = 0 \<and>
   klp_patch_func env0 (snd (klp_patch_func env0 (snd (the (klp_mem_prepare env0 st_reg 10))) 12)) 12 =
     (0, snd (klp_patch_func env0 (snd (the (klp_mem_prepare env0 st_reg 10))) 12)) \<and>
   fst (klp_patch_object env0 (snd (the (klp_mem_prepare env0 st_reg 10))) 11) = 0 \<and>
   klp_patch_object env0 (snd (klp_patch_object env0 (snd (the (klp_mem_prepare env0 st_reg 10))) 11)) 11 =
     (0, snd (klp_patch_object env0 (snd (the (klp_mem_prepare env0 st_reg 10))) 11))"
proof -
  have a: "fst (klp_patch_func env0 (snd (the (klp_mem_prepare env0 st_reg 10))) 12) = 0"
    by (simp add: st_reg_def st_boot_def model_defs env0_simps)
  have b: "fst (klp_patch_object env0 (snd (the (klp_mem_prepare env0 st_reg 10))) 11) = 0"
    by (simp add: st_reg_def st_boot_def model_defs env0_simps)
  show ?thesis
    using klp_patch_idempotent [where st = st_en1 and f = 12 and ob = 11 and env = env0]
      klp_patch_idempotent [where st = "snd (the (klp_mem_prepare env0 st_reg 10))" and f = 12
        and ob = 11 and env = env0] a b
    by (simp add: st_simps)
qed

section \<open>Enabling an enabled patch\<close>

text \<open>
  Claim C7. \<open>enabled_store\<close> returns \<open>-EINVAL\<close> and leaves the state as it is when the
  requested value is the value \<open>patch->enabled\<close> already has, and \<open>__klp_enable_patch\<close>
  (\<open>klp_enable_patch'\<close>) returns \<open>-EINVAL\<close> and leaves the state as it is when the patch is
  enabled: no function's \<open>patched\<close> flag changes and nothing of the patching machinery
  runs.
\<close>

theorem enable_enabled_patch:
  "enabled_store env st p (Some (enabled (patch_at st p))) count = Some (- EINVAL, st) \<and>
   (enabled (patch_at st p) \<longrightarrow>
      klp_enable_patch' env st p = Some (- EINVAL, st) \<and>
      enabled_store env st p (Some True) count = Some (- EINVAL, st))"
  by (simp add: klp_enable_patch'_def enabled_store_def)

theorem enable_enabled_patch_witness:
  "klp_is_patch_registered st_en1 10 \<and> enabled (patch_at st_en1 10) \<and>
   klp_enable_patch' env0 st_en1 10 = Some (- EINVAL, st_en1) \<and>
   enabled_store env0 st_en1 10 (Some True) 1 = Some (- EINVAL, st_en1)"
  using enable_enabled_patch [where st = st_en1 and p = 10 and env = env0 and count = 1]
  by (simp add: st_simps klp_is_patch_registered_def)

section \<open>Unregistering a patch\<close>

lemma klp_free_object_frame:
  "klp_patches (klp_free_object p ob st) = klp_patches st"
  "obj_list (patch_at (klp_free_object p ob st) q) =
     (if q = p then removeAll ob (obj_list (patch_at st p)) else obj_list (patch_at st q))"
  "func_list (object_at (klp_free_object p ob st) ob') =
     (if ob' = ob then [] else func_list (object_at st ob'))"
  "enabled (patch_at (klp_free_object p ob st) q) = enabled (patch_at st q)"
  "func_at (klp_free_object p ob st) = func_at st"
  "node_at (klp_free_object p ob st) = node_at st"
  "text_mem (klp_free_object p ob st) = text_mem st"
  "klp_func_list (klp_free_object p ob st) = klp_func_list st"
  by (simp_all add: klp_free_object_def klp_free_funcs_def module_put_def upd_defs Let_def
        split: option.splits)

lemma fold_free_frame:
  "klp_patches (fold (klp_free_object p) xs st) = klp_patches st"
  "obj_list (patch_at (fold (klp_free_object p) xs st) p) = fold removeAll xs (obj_list (patch_at st p))"
  "enabled (patch_at (fold (klp_free_object p) xs st) q) = enabled (patch_at st q)"
  "func_at (fold (klp_free_object p) xs st) = func_at st"
  "node_at (fold (klp_free_object p) xs st) = node_at st"
  "text_mem (fold (klp_free_object p) xs st) = text_mem st"
  "klp_func_list (fold (klp_free_object p) xs st) = klp_func_list st"
  by (induction xs arbitrary: st) (simp_all add: klp_free_object_frame)

lemma fold_free_func_list:
  "func_list (object_at (fold (klp_free_object p) xs st) ob) =
     (if ob \<in> set xs then [] else func_list (object_at st ob))"
  by (induction xs arbitrary: st) (auto simp: klp_free_object_frame)

lemma fold_removeAll_nil: "set ys \<subseteq> set xs \<Longrightarrow> fold removeAll xs ys = []"
proof (induction xs arbitrary: ys)
  case Nil then show ?case by simp
next
  case (Cons x xs)
  have "set (removeAll x ys) \<subseteq> set xs" using Cons.prems by auto
  then show ?case using Cons.IH by simp
qed

lemma klp_free_patch_start_props:
  "klp_patches (klp_free_patch_start st p) = removeAll p (klp_patches st)"
  "obj_list (patch_at (klp_free_patch_start st p) p) = []"
  "func_list (object_at (klp_free_patch_start st p) ob) =
     (if ob \<in> set (obj_list (patch_at st p)) then [] else func_list (object_at st ob))"
  "enabled (patch_at (klp_free_patch_start st p) q) = enabled (patch_at st q)"
  "func_at (klp_free_patch_start st p) = func_at st"
  "node_at (klp_free_patch_start st p) = node_at st"
  "text_mem (klp_free_patch_start st p) = text_mem st"
  "klp_func_list (klp_free_patch_start st p) = klp_func_list st"
  by (simp_all add: klp_free_patch_start_def klp_free_objects_def fold_free_frame
        fold_free_func_list fold_removeAll_nil)

text \<open>
  Claim C9. For a registered patch, \<open>klp_unregister_patch\<close> returns \<open>-EBUSY\<close> and leaves
  the state as it is when the patch is enabled; when it is disabled it returns 0, takes
  the patch off \<open>klp_patches\<close>, empties its object list and the function list of each of
  its objects, and afterwards \<open>klp_is_patch_registered\<close> fails for it (a second
  \<open>klp_unregister_patch\<close> returns \<open>-EINVAL\<close>).
\<close>

theorem klp_unregister_patch_spec:
  assumes reg: "klp_is_patch_registered st p"
  shows "(enabled (patch_at st p) \<longrightarrow> klp_unregister_patch env st p = (- EBUSY, st)) \<and>
         (\<not> enabled (patch_at st p) \<longrightarrow>
            (case klp_unregister_patch env st p of (ret, st') \<Rightarrow>
               ret = 0 \<and> klp_patches st' = removeAll p (klp_patches st) \<and>
               \<not> klp_is_patch_registered st' p \<and>
               obj_list (patch_at st' p) = [] \<and>
               (\<forall>ob \<in> set (obj_list (patch_at st p)). func_list (object_at st' ob) = []) \<and>
               klp_unregister_patch env st' p = (- EINVAL, st')))"
proof (intro conjI impI)
  assume "enabled (patch_at st p)"
  then show "klp_unregister_patch env st p = (- EBUSY, st)"
    using reg by (simp add: klp_unregister_patch_def)
next
  assume dis: "\<not> enabled (patch_at st p)"
  have r: "klp_unregister_patch env st p = (0, klp_free_patch_start st p)"
    using reg dis by (simp add: klp_unregister_patch_def)
  have nr: "\<not> klp_is_patch_registered (klp_free_patch_start st p) p"
    by (simp add: klp_is_patch_registered_def klp_free_patch_start_props)
  show "case klp_unregister_patch env st p of (ret, st') \<Rightarrow>
               ret = 0 \<and> klp_patches st' = removeAll p (klp_patches st) \<and>
               \<not> klp_is_patch_registered st' p \<and>
               obj_list (patch_at st' p) = [] \<and>
               (\<forall>ob \<in> set (obj_list (patch_at st p)). func_list (object_at st' ob) = []) \<and>
               klp_unregister_patch env st' p = (- EINVAL, st')"
    unfolding r using nr
    by (simp add: klp_free_patch_start_props) (simp add: klp_unregister_patch_def)
qed

theorem klp_unregister_patch_spec_witness:
  "klp_is_patch_registered st_en1 10 \<and> enabled (patch_at st_en1 10) \<and>
   klp_unregister_patch env0 st_en1 10 = (- EBUSY, st_en1) \<and>
   klp_is_patch_registered st_reg 20 \<and> \<not> enabled (patch_at st_reg 20) \<and>
   fst (klp_unregister_patch env0 st_reg 20) = 0 \<and>
   klp_patches (snd (klp_unregister_patch env0 st_reg 20)) = [10] \<and>
   \<not> klp_is_patch_registered (snd (klp_unregister_patch env0 st_reg 20)) 20"
proof -
  have r1: "klp_is_patch_registered st_en1 10" and r2: "klp_is_patch_registered st_reg 20"
    by (simp_all add: klp_is_patch_registered_def st_simps)
  show ?thesis
    using klp_unregister_patch_spec [OF r1, of env0] klp_unregister_patch_spec [OF r2, of env0] r1 r2
    by (auto simp: st_simps split: prod.splits)
qed

section \<open>Functions shorter than the patch footprint\<close>

lemma klp_init_func_loaded_frame:
  assumes "klp_init_func_loaded env st ob f = (ret, st')"
  shows "object_at st' = object_at st" "patch_at st' = patch_at st" "node_at st' = node_at st"
        "text_mem st' = text_mem st" "klp_patches st' = klp_patches st"
        "klp_func_list st' = klp_func_list st"
        "old_name (func_at st' g) = old_name (func_at st g)"
        "old_sympos (func_at st' g) = old_sympos (func_at st g)"
        "new_func (func_at st' g) = new_func (func_at st g)"
        "patched (func_at st' g) = patched (func_at st g)"
        "func_node (func_at st' g) = func_node (func_at st g)"
        "force (func_at st' g) = force (func_at st g)"
  using assms
  by (auto simp: klp_init_func_loaded_def Let_def upd_defs split: prod.splits if_splits option.splits)

lemma klp_init_funcs_loaded_frame:
  assumes "klp_init_funcs_loaded env st ob fs = (ret, st')"
  shows "object_at st' = object_at st \<and> patch_at st' = patch_at st \<and> node_at st' = node_at st \<and>
         text_mem st' = text_mem st \<and> klp_patches st' = klp_patches st \<and>
         klp_func_list st' = klp_func_list st \<and>
         (\<forall>g. old_name (func_at st' g) = old_name (func_at st g) \<and>
              old_sympos (func_at st' g) = old_sympos (func_at st g) \<and>
              new_func (func_at st' g) = new_func (func_at st g) \<and>
              patched (func_at st' g) = patched (func_at st g) \<and>
              func_node (func_at st' g) = func_node (func_at st g) \<and>
              force (func_at st' g) = force (func_at st g))"
  using assms
proof (induction fs arbitrary: st)
  case Nil
  then show ?case by simp
next
  case (Cons f fs)
  obtain r1 st1 where s1: "klp_init_func_loaded env st ob f = (r1, st1)"
    by (cases "klp_init_func_loaded env st ob f")
  note fr = klp_init_func_loaded_frame [OF s1]
  show ?case
  proof (cases "r1 = 0")
    case True
    then have "klp_init_funcs_loaded env st1 ob fs = (ret, st')"
      using Cons.prems s1 by simp
    from Cons.IH [OF this] show ?thesis by (simp add: fr)
  next
    case False
    then have "st' = st1" using Cons.prems s1 by simp
    then show ?thesis by (simp add: fr)
  qed
qed

lemma too_small_step:
  assumes "klp_init_func_loaded env st ob g = (ret, st')"
  shows "too_small env st' ob f = too_small env st ob f"
  using klp_init_func_loaded_frame [OF assms] by (simp add: too_small_def)

lemma klp_init_func_loaded_too_small:
  "too_small env st ob f \<Longrightarrow> fst (klp_init_func_loaded env st ob f) \<noteq> 0"
  by (auto simp: too_small_def klp_init_func_loaded_def Let_def split: prod.splits option.splits)

lemma klp_init_funcs_loaded_too_small:
  "f \<in> set fs \<Longrightarrow> too_small env st ob f \<Longrightarrow> fst (klp_init_funcs_loaded env st ob fs) \<noteq> 0"
proof (induction fs arbitrary: st)
  case Nil
  then show ?case by simp
next
  case (Cons g fs)
  obtain r1 st1 where s1: "klp_init_func_loaded env st ob g = (r1, st1)"
    by (cases "klp_init_func_loaded env st ob g")
  show ?case
  proof (cases "r1 = 0")
    case False
    then show ?thesis using s1 by simp
  next
    case True
    have "g \<noteq> f"
      using True s1 klp_init_func_loaded_too_small [OF Cons.prems(2)] by auto
    then have "f \<in> set fs" using Cons.prems(1) by simp
    moreover have "too_small env st1 ob f"
      using too_small_step [OF s1] Cons.prems(2) by simp
    ultimately have "fst (klp_init_funcs_loaded env st1 ob fs) \<noteq> 0"
      by (rule Cons.IH)
    then show ?thesis using True s1 by simp
  qed
qed

lemma klp_init_object_loaded_too_small:
assumes "f \<in> set (func_list (object_at st ob))"
      and "too_small env st ob f"
  shows "case klp_init_object_loaded env st p ob of (ret, st') \<Rightarrow>
           ret \<noteq> 0 \<and> text_mem st' = text_mem st \<and> node_at st' = node_at st \<and>
           (\<forall>g. patched (func_at st' g) = patched (func_at st g))"
proof (cases "klp_init_object_loaded env st p ob")
  case (Pair ret st')
  show ?thesis
  proof (cases "klp_is_module st ob \<and>
      klp_apply_object_relocs env (pmod (patch_at st p)) (obj_name (object_at st ob)) \<noteq> 0")
    case True
    then show ?thesis by (simp add: klp_init_object_loaded_def)
  next
    case False
    then have eq: "klp_init_object_loaded env st p ob =
        klp_init_funcs_loaded env st ob (func_list (object_at st ob))"
      by (auto simp: klp_init_object_loaded_def)
    have fl: "klp_init_funcs_loaded env st ob (func_list (object_at st ob)) = (ret, st')"
      using eq Pair by simp
    have "ret \<noteq> 0"
      using klp_init_funcs_loaded_too_small [OF assms] fl by simp
    moreover note klp_init_funcs_loaded_frame [OF fl]
    ultimately show ?thesis using Pair by simp
  qed
qed

text \<open>
  Claim C6. When the old symbol of a function of the object resolves to a function
  whose size is below \<open>KLP_MAX_REPLACE_SIZE\<close>, \<open>klp_init_object_loaded\<close> returns an error
  (\<open>-EINVAL\<close> when that function is the only one of an object of the base image), and it
  returns without a write to the instructions of any function: the redirections, the
  function-site nodes and every \<open>patched\<close> flag are as before.
\<close>

theorem klp_init_object_loaded_rejects_small:
  assumes f: "f \<in> set (func_list (object_at st ob))"
      and sym: "klp_find_object_symbol env (obj_name (object_at st ob))
                  (name_of (old_name (func_at st f))) (old_sympos (func_at st f)) = (0, a)"
      and size: "kallsyms_lookup_size_offset env a = Some s"
      and small: "s < KLP_MAX_REPLACE_SIZE env"
  shows "case klp_init_object_loaded env st p ob of (ret, st') \<Rightarrow>
           ret \<noteq> 0 \<and> text_mem st' = text_mem st \<and> node_at st' = node_at st \<and>
           (\<forall>g. patched (func_at st' g) = patched (func_at st g)) \<and>
           (func_list (object_at st ob) = [f] \<and> \<not> klp_is_module st ob \<and> s < 2 ^ 63 \<longrightarrow>
              ret = - EINVAL)"
proof -
  have ts: "too_small env st ob f"
    using sym size small by (simp add: too_small_def)
  have only: "func_list (object_at st ob) = [f] \<and> \<not> klp_is_module st ob \<and> s < 2 ^ 63 \<Longrightarrow>
      fst (klp_init_object_loaded env st p ob) = - EINVAL"
    using sym size small
    by (simp add: klp_init_object_loaded_def klp_init_func_loaded_def Let_def)
  show ?thesis
    using klp_init_object_loaded_too_small [OF f ts, of p] only
    by (auto split: prod.splits)
qed

theorem klp_init_object_loaded_rejects_small_witness:
  "12 \<in> set (func_list (object_at st_reg 11)) \<and>
   klp_find_object_symbol env_small None ''bar'' 0 = (0, 8192) \<and>
   kallsyms_lookup_size_offset env_small 8192 = Some 8 \<and>
   8 < KLP_MAX_REPLACE_SIZE env_small \<and>
   fst (klp_init_object_loaded env_small st_reg 10 11) = - EINVAL \<and>
   text_mem (snd (klp_init_object_loaded env_small st_reg 10 11)) = text_mem st_reg"
proof -
  have f: "12 \<in> set (func_list (object_at st_reg 11))"
    by (simp add: st_simps)
  have sym: "klp_find_object_symbol env_small (obj_name (object_at st_reg 11))
      (name_of (old_name (func_at st_reg 12))) (old_sympos (func_at st_reg 12)) = (0, 8192)"
    by (simp add: st_simps name_of_def klp_find_object_symbol_occ occurrences_def
        object_syms_def env_small_def env0_def)
  have size: "kallsyms_lookup_size_offset env_small 8192 = Some 8"
    by (simp add: env_small_def)
  have small: "8 < KLP_MAX_REPLACE_SIZE env_small"
    by (simp add: env_small_def env0_def)
  show ?thesis
    using klp_init_object_loaded_rejects_small [OF f sym size small, of 10] f sym size small
    by (auto simp: st_simps name_of_def klp_is_module_def split: prod.splits)
qed

section \<open>Releasing the function-site nodes\<close>

lemma func_node_free_fault:
  "(func_node_free f st = None) =
     (\<exists>n. func_node (func_at st f) = Some n \<and> node_freed st n)"
  by (auto simp: func_node_free_def Let_def split: option.splits)

lemma func_node_free_some:
  assumes "func_node_free f st = Some s"
  shows "func_node (func_at s g) = (if g = f then None else func_node (func_at st g))"
    and "node_at s = node_at st" and "next_node s = next_node st"
    and "node_freed s m =
           (node_freed st m \<or>
            (func_node (func_at st f) = Some m \<and> func_stack (node_at st m) = []))"
    and "set (klp_func_list s) =
           set (klp_func_list st) -
           {n. func_node (func_at st f) = Some n \<and> func_stack (node_at st n) = []}"
  using assms
  by (auto simp: func_node_free_def Let_def upd_defs node_freed_def arch_klp_mem_free_def
        synchronize_rcu_def klp_del_func_node_def split: option.splits if_splits)



text \<open>Once a function still to be visited points to freed memory, the loop does not
  reach its end.\<close>

lemma klp_mem_recycle_funcs_freed:
  "g \<in> set fs \<Longrightarrow> func_node (func_at st g) = Some n \<Longrightarrow> node_freed st n \<Longrightarrow>
   klp_mem_recycle_funcs fs st = None"
proof (induction fs arbitrary: st)
  case Nil
  then show ?case by simp
next
  case (Cons f fs)
  show ?case
  proof (cases "func_node_free f st")
    case None
    then show ?thesis by simp
  next
    case (Some s1)
    note p = func_node_free_some [OF Some]
    have gf: "g \<noteq> f"
      using Some Cons.prems(2,3) func_node_free_fault [of f st] by auto
    then have "g \<in> set fs" using Cons.prems(1) by simp
    moreover have "func_node (func_at s1 g) = Some n" using gf Cons.prems(2) by (simp add: p(1))
    moreover have "node_freed s1 n" using Cons.prems(3) by (simp add: p(4))
    ultimately show ?thesis using Cons.IH Some by simp
  qed
qed

text \<open>Two functions of a patch that point to one node whose stack is empty: the first
  \<open>func_node_free\<close> frees the node, the second uses it.\<close>

lemma klp_mem_recycle_funcs_shared:
  assumes "f \<in> set fs" and "g \<in> set fs" and "f \<noteq> g"
      and "func_node (func_at st f) = Some n" and "func_node (func_at st g) = Some n"
      and "func_stack (node_at st n) = []"
  shows "klp_mem_recycle_funcs fs st = None"
  using assms
proof (induction fs arbitrary: st)
  case Nil
  then show ?case by simp
next
  case (Cons h fs)
  show ?case
  proof (cases "func_node_free h st")
    case None
    then show ?thesis by simp
  next
    case (Some s1)
    note p = func_node_free_some [OF Some]
    show ?thesis
    proof (cases "h = f \<or> h = g")
      case True
      then obtain k where k: "k \<in> set fs" "k \<noteq> h" "func_node (func_at st k) = Some n"
        and hn: "func_node (func_at st h) = Some n"
        using Cons.prems by auto
      have "func_node (func_at s1 k) = Some n" using k by (simp add: p(1))
      moreover have "node_freed s1 n" using hn Cons.prems(6) by (simp add: p(4))
      ultimately have "klp_mem_recycle_funcs fs s1 = None"
        using klp_mem_recycle_funcs_freed [OF k(1)] by blast
      then show ?thesis using Some by simp
    next
      case False
      then have "f \<in> set fs" "g \<in> set fs" using Cons.prems by auto
      moreover have "func_node (func_at s1 f) = Some n" "func_node (func_at s1 g) = Some n"
        using False Cons.prems by (auto simp: p(1))
      moreover have "func_stack (node_at s1 n) = []" using Cons.prems(6) by (simp add: p(2))
      ultimately have "klp_mem_recycle_funcs fs s1 = None"
        using Cons.IH Cons.prems(3) by blast
      then show ?thesis using Some by simp
    qed
  qed
qed

lemma klp_mem_recycle_shared:
  "f \<in> set (patch_funcs st p) \<Longrightarrow> g \<in> set (patch_funcs st p) \<Longrightarrow> f \<noteq> g \<Longrightarrow>
   func_node (func_at st f) = Some n \<Longrightarrow> func_node (func_at st g) = Some n \<Longrightarrow>
   func_stack (node_at st n) = [] \<Longrightarrow> klp_mem_recycle st p = None"
  unfolding klp_mem_recycle_def by (rule klp_mem_recycle_funcs_shared)

section \<open>Stacking order\<close>















lemma activeness_funcs_quiet:
  "\<forall>a. kzalloc_atomic env a \<Longrightarrow> fst (klp_check_activeness_funcs env st fs e fl) = 0"
proof (induction fs arbitrary: fl)
  case Nil
  show ?case by simp
next
  case (Cons f fs)
  have "fst (arch_klp_check_activeness_func env st f e fl) = 0"
    using Cons.prems
    by (auto simp: arch_klp_check_activeness_func_def add_func_to_list_def Let_def
          split: prod.splits if_splits)
  then show ?case
    using Cons.IH [OF Cons.prems]
    by (cases "arch_klp_check_activeness_func env st f e fl") simp
qed


lemma klp_check_patch_kprobed_quiet:
  "\<forall>a. \<not> get_kprobe env a \<Longrightarrow> \<not> klp_check_patch_kprobed env st p"
  by (simp add: klp_check_patch_kprobed_def list_ex_iff)


lemma st_dis20_run: "klp_disable_patch' env0 st_en12 20 = Some (0, st_en1)"
  apply (simp add: st_en12_def st_en1_def st_reg_def st_boot_def model_defs env0_simps list_ex_iff
      node_freed_def Let_def)
  apply (auto simp: fun_eq_iff)
  done



section \<open>The activeness check\<close>

lemma check_func_list_eq:
  "check_func_list env fl r pc =
     (if list_ex (\<lambda>af. in_use env af pc) fl then (False, - EAGAIN)
      else (True, if fl = [] then r else 0))"
  by (induction fl arbitrary: r)
     (auto simp: klp_compare_address_def in_use_def Let_def)

lemma walk_stack_hit:
  "pc \<in> set pcs \<Longrightarrow> list_ex (\<lambda>af. in_use env af pc) fl \<Longrightarrow>
   walk_stack (check_func_list env fl) r pcs = - EAGAIN"
proof (induction pcs arbitrary: r)
  case Nil
  then show ?case by simp
next
  case (Cons a pcs)
  show ?case
  proof (cases "list_ex (\<lambda>af. in_use env af a) fl")
    case True
    then show ?thesis by (simp add: check_func_list_eq)
  next
    case False
    then have "pc \<in> set pcs" using Cons.prems by auto
    from Cons.IH [OF this Cons.prems(2)] False show ?thesis
      by (simp add: check_func_list_eq)
  qed
qed

lemma walk_stack_miss:
  "\<forall>pc \<in> set pcs. \<not> list_ex (\<lambda>af. in_use env af pc) fl \<Longrightarrow>
   walk_stack (check_func_list env fl) 0 pcs = 0"
  by (induction pcs) (simp_all add: check_func_list_eq)

lemma add_func_to_list_cases:
  "add_func_to_list env fl a s n frc = (r, fl') \<Longrightarrow>
   (r = 0 \<and> fl' = fl @ [\<lparr>af_addr = a, af_size = s, af_name = n, af_force = frc\<rparr>]) \<or>
   (r = - ENOMEM \<and> fl' = fl)"
  by (auto simp: add_func_to_list_def split: if_splits)

lemma activeness_func_enable:
  assumes "arch_klp_check_activeness_func env st f True fl = (0, fl')"
  shows "set fl \<subseteq> set fl' \<and>
         (\<not> patched (func_at st f) \<and> force (func_at st f) \<noteq> KLP_ENFORCEMENT \<and>
          (CONFIG_PREEMPTION env \<or> force (func_at st f) = KLP_NORMAL_FORCE \<or>
           arch_check_jump_insn env (fst (active_range st f))) \<longrightarrow>
          \<lparr>af_addr = fst (active_range st f), af_size = snd (active_range st f),
            af_name = old_name (func_at st f), af_force = force (func_at st f)\<rparr> \<in> set fl')"
  using assms
  by (auto simp: arch_klp_check_activeness_func_def active_range_def Let_def
        add_func_to_list_def split: if_splits prod.splits)


lemma activeness_funcs_enable:
  assumes "klp_check_activeness_funcs env st fs True fl = (0, fl')"
  shows "set fl \<subseteq> set fl' \<and>
         (\<forall>f \<in> set fs.
            \<not> patched (func_at st f) \<and> force (func_at st f) \<noteq> KLP_ENFORCEMENT \<and>
            (CONFIG_PREEMPTION env \<or> force (func_at st f) = KLP_NORMAL_FORCE \<or>
             arch_check_jump_insn env (fst (active_range st f))) \<longrightarrow>
            \<lparr>af_addr = fst (active_range st f), af_size = snd (active_range st f),
              af_name = old_name (func_at st f), af_force = force (func_at st f)\<rparr> \<in> set fl')"
  using assms
proof (induction fs arbitrary: fl)
  case Nil
  then show ?case by simp
next
  case (Cons f fs)
  obtain r1 fl1 where a: "arch_klp_check_activeness_func env st f True fl = (r1, fl1)"
    by (cases "arch_klp_check_activeness_func env st f True fl")
  have r1: "r1 = 0" using Cons.prems a by (auto split: if_splits)
  then have rest: "klp_check_activeness_funcs env st fs True fl1 = (0, fl')"
    using Cons.prems a by simp
  note h = activeness_func_enable [OF a [unfolded r1]]
  note ih = Cons.IH [OF rest]
  show ?case using h ih by auto
qed


text \<open>With the stack walk of the spec, an address on a stack inside an entry of the
  list makes the check fail.\<close>

lemma klp_check_calltrace_hit:
  assumes walker: "arch_klp_check_calltrace env = stack_walker stacks"
      and alloc: "\<forall>a. kzalloc_atomic env a"
      and pc: "pc \<in> set (concat stacks)"
      and entry: "af \<in> set (snd (klp_check_activeness_func env st p e []))"
      and hit: "in_use env af pc"
  shows "klp_check_calltrace env st p e = - EAGAIN"
proof (cases "klp_check_activeness_func env st p e []")
  case (Pair r fl)
  have "r = 0"
    using activeness_funcs_quiet [OF alloc, of st "patch_funcs st p" e "[]"] Pair
    by (simp add: klp_check_activeness_func_def)
  moreover have "af \<in> set fl" using entry Pair by simp
  then have "fl \<noteq> []" and "list_ex (\<lambda>af. in_use env af pc) fl"
    using hit by (auto simp: list_ex_iff)
  ultimately show ?thesis
    using Pair walker walk_stack_hit [OF pc, of env fl 0]
    by (simp add: klp_check_calltrace_def stack_walker_def)
qed



lemma patch_step_ready: "patch_step st st' \<Longrightarrow> ready st' f = ready st f"
  by (simp add: ready_def patch_stepD)





lemma patch_funcs_iff:
  "(\<forall>f \<in> set (patch_funcs st p). Q f) =
   (\<forall>ob \<in> set (obj_list (patch_at st p)). \<forall>f \<in> set (func_list (object_at st ob)). Q f)"
  by (auto simp: patch_funcs_def)

lemma module_get_frame:
  "module_get env st m = (b, st1) \<Longrightarrow>
   func_at st1 = func_at st \<and> object_at st1 = object_at st \<and> patch_at st1 = patch_at st"
  by (auto simp: module_get_def split: option.splits if_splits)








lemma enable_hit:
  assumes walker: "arch_klp_check_calltrace env = stack_walker stacks"
      and alloc: "\<forall>a. kzalloc_atomic env a"
      and pc: "pc \<in> set (concat stacks)"
      and f: "f \<in> set (patch_funcs st p)"
      and chk: "\<not> patched (func_at st f)" "force (func_at st f) \<noteq> KLP_ENFORCEMENT"
        "CONFIG_PREEMPTION env \<or> force (func_at st f) = KLP_NORMAL_FORCE \<or>
         arch_check_jump_insn env (fst (active_range st f))"
      and rng: "fst (active_range st f) \<le> pc"
        "pc < fst (active_range st f) +
              klp_size_to_check env (snd (active_range st f)) (force (func_at st f))"
  shows "klp_check_calltrace env st p True = - EAGAIN"
proof (cases "klp_check_activeness_func env st p True []")
  case (Pair r fl)
  have r: "r = 0"
    using activeness_funcs_quiet [OF alloc, of st "patch_funcs st p" True "[]"] Pair
    by (simp add: klp_check_activeness_func_def)
  let ?af = "\<lparr>af_addr = fst (active_range st f), af_size = snd (active_range st f),
              af_name = old_name (func_at st f), af_force = force (func_at st f)\<rparr>"
  have "?af \<in> set fl"
    using activeness_funcs_enable [of env st "patch_funcs st p" "[]" fl] Pair r f chk
    by (simp add: klp_check_activeness_func_def)
  then have e: "?af \<in> set (snd (klp_check_activeness_func env st p True []))"
    using Pair by simp
  have "in_use env ?af pc" using rng by (simp add: in_use_def)
  from klp_check_calltrace_hit [OF walker alloc pc e this] show ?thesis .
qed









section \<open>A failed enable leaves nothing behind\<close>

lemma klp_unpatch_func_patched:
  "patched (func_at (klp_unpatch_func f st) g) \<Longrightarrow> patched (func_at st g)"
  "ready st f \<Longrightarrow> \<not> patched (func_at (klp_unpatch_func f st) f)"
  "object_at (klp_unpatch_func f st) = object_at st"
  by (auto simp: klp_unpatch_func_def arch_klp_unpatch_func_def ready_def Let_def upd_defs
        split: option.splits if_splits)

lemma fold_unpatch_shrink:
  "patched (func_at (fold (\<lambda>f s. if patched (func_at s f) then klp_unpatch_func f s else s)
      fs st) g) \<Longrightarrow> patched (func_at st g)"
proof (induction fs arbitrary: st)
  case Nil
  then show ?case by simp
next
  case (Cons f fs)
  let ?s1 = "if patched (func_at st f) then klp_unpatch_func f st else st"
  from Cons.prems have "patched (func_at ?s1 g)"
    using Cons.IH [of ?s1] by simp
  then show ?case
    using klp_unpatch_func_patched(1) [of f st g] by (cases "patched (func_at st f)") simp_all
qed

lemma fold_unpatch_objects:
  "object_at (fold (\<lambda>f s. if patched (func_at s f) then klp_unpatch_func f s else s) fs st) =
   object_at st"
  by (induction fs arbitrary: st) (simp_all add: klp_unpatch_func_patched(3))

lemma unpatch_if_patched:
  "patched (func_at (if patched (func_at st f) then klp_unpatch_func f st else st) g) \<Longrightarrow>
   patched (func_at st g)"
  "patched (func_at st f) \<longrightarrow> ready st f \<Longrightarrow>
   \<not> patched (func_at (if patched (func_at st f) then klp_unpatch_func f st else st) f)"
  "patch_step st (if patched (func_at st f) then klp_unpatch_func f st else st)"
proof -
  show "patched (func_at (if patched (func_at st f) then klp_unpatch_func f st else st) g) \<Longrightarrow>
   patched (func_at st g)"
    using klp_unpatch_func_patched(1) [of f st g] by (cases "patched (func_at st f)") simp_all
  show "patched (func_at st f) \<longrightarrow> ready st f \<Longrightarrow>
   \<not> patched (func_at (if patched (func_at st f) then klp_unpatch_func f st else st) f)"
    using klp_unpatch_func_patched(2) [of st f] by (cases "patched (func_at st f)") simp_all
  show "patch_step st (if patched (func_at st f) then klp_unpatch_func f st else st)"
    by (simp add: klp_unpatch_func_patch_step patch_step_refl)
qed

lemma fold_unpatch_all:
  "\<forall>f \<in> set fs. patched (func_at st f) \<longrightarrow> ready st f \<Longrightarrow> g \<in> set fs \<Longrightarrow>
   \<not> patched (func_at (fold (\<lambda>f s. if patched (func_at s f) then klp_unpatch_func f s else s)
      fs st) g)"
proof (induction fs arbitrary: st)
  case Nil
  then show ?case by simp
next
  case (Cons f fs)
  let ?s1 = "if patched (func_at st f) then klp_unpatch_func f st else st"
  note ps = unpatch_if_patched(3) [of st f]
  have f1: "\<not> patched (func_at ?s1 f)"
    using Cons.prems(1) by (intro unpatch_if_patched(2)) simp
  have k1: "\<forall>h \<in> set fs. patched (func_at ?s1 h) \<longrightarrow> ready ?s1 h"
  proof (intro ballI impI)
    fix h assume h: "h \<in> set fs" "patched (func_at ?s1 h)"
    from h(2) have "patched (func_at st h)" by (rule unpatch_if_patched(1))
    with h(1) Cons.prems(1) have "ready st h" by simp
    then show "ready ?s1 h" by (simp only: patch_step_ready [OF ps])
  qed
  show ?case
  proof (cases "g \<in> set fs")
    case True
    from Cons.IH [OF k1 True] show ?thesis by simp
  next
    case False
    then have gf: "g = f" using Cons.prems(2) by simp
    have "\<not> patched (func_at (fold (\<lambda>f s. if patched (func_at s f) then klp_unpatch_func f s
        else s) fs ?s1) f)"
      using f1 fold_unpatch_shrink [of fs ?s1 f] by blast
    then show ?thesis by (simp add: gf)
  qed
qed

lemma klp_unpatch_object_patched:
  "patched (func_at (klp_unpatch_object ob st) g) \<Longrightarrow> patched (func_at st g)"
  "\<forall>f \<in> set (func_list (object_at st ob)). patched (func_at st f) \<longrightarrow> ready st f \<Longrightarrow>
   g \<in> set (func_list (object_at st ob)) \<Longrightarrow> \<not> patched (func_at (klp_unpatch_object ob st) g)"
  "obj_patched (object_at (klp_unpatch_object ob st) ob') =
     (ob' \<noteq> ob \<and> obj_patched (object_at st ob'))"
proof -
  let ?s = "fold (\<lambda>f s. if patched (func_at s f) then klp_unpatch_func f s else s)
      (func_list (object_at st ob)) st"
  have fa: "func_at (klp_unpatch_object ob st) = func_at ?s"
    by (simp add: klp_unpatch_object_def upd_defs)
  show "patched (func_at (klp_unpatch_object ob st) g) \<Longrightarrow> patched (func_at st g)"
    using fold_unpatch_shrink [of "func_list (object_at st ob)" st g] by (simp add: fa)
  show "\<forall>f \<in> set (func_list (object_at st ob)). patched (func_at st f) \<longrightarrow> ready st f \<Longrightarrow>
   g \<in> set (func_list (object_at st ob)) \<Longrightarrow> \<not> patched (func_at (klp_unpatch_object ob st) g)"
    using fold_unpatch_all [of "func_list (object_at st ob)" st g] by (simp add: fa)
  show "obj_patched (object_at (klp_unpatch_object ob st) ob') =
     (ob' \<noteq> ob \<and> obj_patched (object_at st ob'))"
    by (simp add: klp_unpatch_object_def upd_defs fold_unpatch_objects)
qed

lemma fold_unpatch_objects_shrink:
  "patched (func_at (fold (\<lambda>ob s. if obj_patched (object_at s ob) then klp_unpatch_object ob s
      else s) obs st) g) \<Longrightarrow> patched (func_at st g)"
proof (induction obs arbitrary: st)
  case Nil
  then show ?case by simp
next
  case (Cons o1 obs)
  let ?s1 = "if obj_patched (object_at st o1) then klp_unpatch_object o1 st else st"
  from Cons.prems have "patched (func_at ?s1 g)"
    using Cons.IH [of ?s1] by simp
  then show ?case
    using klp_unpatch_object_patched(1) [of o1 st g]
    by (cases "obj_patched (object_at st o1)") simp_all
qed

lemma unpatch_object_if_patched:
  "patched (func_at (if obj_patched (object_at st o1) then klp_unpatch_object o1 st else st) g)
   \<Longrightarrow> patched (func_at st g)"
  "patch_step st (if obj_patched (object_at st o1) then klp_unpatch_object o1 st else st)"
  "ob \<noteq> o1 \<Longrightarrow>
   obj_patched (object_at (if obj_patched (object_at st o1) then klp_unpatch_object o1 st else st)
     ob) = obj_patched (object_at st ob)"
proof -
  show "patched (func_at (if obj_patched (object_at st o1) then klp_unpatch_object o1 st else st) g)
   \<Longrightarrow> patched (func_at st g)"
    using klp_unpatch_object_patched(1) [of o1 st g]
    by (cases "obj_patched (object_at st o1)") simp_all
  show "patch_step st (if obj_patched (object_at st o1) then klp_unpatch_object o1 st else st)"
    by (simp add: klp_unpatch_object_patch_step patch_step_refl)
  show "ob \<noteq> o1 \<Longrightarrow>
   obj_patched (object_at (if obj_patched (object_at st o1) then klp_unpatch_object o1 st else st)
     ob) = obj_patched (object_at st ob)"
    by (simp add: klp_unpatch_object_patched(3))
qed

lemma fold_unpatch_objects_all:
  assumes "\<forall>ob \<in> set obs. \<forall>f \<in> set (func_list (object_at st ob)).
             patched (func_at st f) \<longrightarrow> ready st f"
      and "ob \<in> set obs" and "obj_patched (object_at st ob)"
      and "g \<in> set (func_list (object_at st ob))"
  shows "\<not> patched (func_at (fold (\<lambda>ob s. if obj_patched (object_at s ob)
            then klp_unpatch_object ob s else s) obs st) g)"
  using assms
proof (induction obs arbitrary: st)
  case Nil
  then show ?case by simp
next
  case (Cons o1 obs)
  let ?s1 = "if obj_patched (object_at st o1) then klp_unpatch_object o1 st else st"
  note ps = unpatch_object_if_patched(2) [of st o1]
  show ?case
  proof (cases "ob = o1")
    case True
    have "\<forall>f \<in> set (func_list (object_at st o1)). patched (func_at st f) \<longrightarrow> ready st f"
      using Cons.prems(1) by simp
    then have "\<not> patched (func_at (klp_unpatch_object o1 st) g)"
      using Cons.prems(4) True by (intro klp_unpatch_object_patched(2)) simp_all
    then have "\<not> patched (func_at ?s1 g)"
      using Cons.prems(3) True by simp
    then have "\<not> patched (func_at (fold (\<lambda>ob s. if obj_patched (object_at s ob)
            then klp_unpatch_object ob s else s) obs ?s1) g)"
      using fold_unpatch_objects_shrink [of obs ?s1 g] by blast
    then show ?thesis by simp
  next
    case False
    then have m: "ob \<in> set obs" using Cons.prems(2) by simp
    have k1: "\<forall>ob \<in> set obs. \<forall>f \<in> set (func_list (object_at ?s1 ob)).
        patched (func_at ?s1 f) \<longrightarrow> ready ?s1 f"
    proof (intro ballI impI)
      fix ob' h assume h: "ob' \<in> set obs" "h \<in> set (func_list (object_at ?s1 ob'))"
        "patched (func_at ?s1 h)"
      from h(3) have "patched (func_at st h)" by (rule unpatch_object_if_patched(1))
      moreover from h(2) have "h \<in> set (func_list (object_at st ob'))"
        by (simp only: patch_stepD(8) [OF ps])
      ultimately have "ready st h" using h(1) Cons.prems(1) by simp
      then show "ready ?s1 h" by (simp only: patch_step_ready [OF ps])
    qed
    have p1: "obj_patched (object_at ?s1 ob)"
      using Cons.prems(3) unpatch_object_if_patched(3) [OF False, of st] by blast
    have g1: "g \<in> set (func_list (object_at ?s1 ob))"
      using Cons.prems(4) by (simp only: patch_stepD(8) [OF ps])
    from Cons.IH [OF k1 m p1 g1] show ?thesis by simp
  qed
qed

lemma klp_unpatch_objects_none:
  assumes "patched_ready st p" and "patched_covered st p"
  shows "none_patched (klp_unpatch_objects st p) p"
proof -
  note ps = klp_unpatch_objects_patch_step [of st p]
  have k: "\<forall>ob \<in> set (obj_list (patch_at st p)). \<forall>f \<in> set (func_list (object_at st ob)).
      patched (func_at st f) \<longrightarrow> ready st f"
    using assms(1) by (simp add: patched_ready_def patch_funcs_iff)
  have "\<not> patched (func_at (klp_unpatch_objects st p) f)" if f: "f \<in> set (patch_funcs st p)" for f
  proof
    assume a: "patched (func_at (klp_unpatch_objects st p) f)"
    then have "patched (func_at st f)"
      using fold_unpatch_objects_shrink by (simp add: klp_unpatch_objects_def)
    then obtain ob where ob: "ob \<in> set (obj_list (patch_at st p))"
      "f \<in> set (func_list (object_at st ob))" "obj_patched (object_at st ob)"
      using assms(2) f by (auto simp: patched_covered_def)
    from fold_unpatch_objects_all [OF k ob(1) ob(3) ob(2)] a
    show False by (simp add: klp_unpatch_objects_def)
  qed
  then show ?thesis
    by (simp add: none_patched_def patch_stepD(20) [OF ps])
qed

lemma klp_patch_func_patched:
  assumes "klp_patch_func env st f = (r, s)"
  shows "object_at s = object_at st"
    and "patched (func_at s g) \<Longrightarrow> patched (func_at st g) \<or> (g = f \<and> ready st f)"
  using assms
  by (auto simp: klp_patch_func_def arch_klp_patch_func_def ready_def Let_def upd_defs
        split: option.splits if_splits prod.splits)

lemma klp_patch_funcs_patched:
  assumes "klp_patch_funcs env st ob fs = (r, s)"
      and "set fs \<subseteq> set (func_list (object_at st ob))"
      and "\<not> obj_patched (object_at st ob)"
      and "\<forall>g \<in> set (func_list (object_at st ob)). patched (func_at st g) \<longrightarrow> ready st g"
  shows "(\<forall>ob'. obj_patched (object_at s ob') = obj_patched (object_at st ob')) \<and>
         (\<forall>g. patched (func_at s g) \<longrightarrow>
            (if r = 0 then patched (func_at st g) \<or> (g \<in> set fs \<and> ready st g)
             else patched (func_at st g) \<and> g \<notin> set (func_list (object_at st ob))))"
  using assms
proof (induction fs arbitrary: st)
  case Nil
  then show ?case by simp
next
  case (Cons f fs)
  obtain r1 st1 where pf: "klp_patch_func env st f = (r1, st1)"
    by (cases "klp_patch_func env st f")
  note ps = klp_patch_func_patch_step [OF pf]
  note oa = klp_patch_func_patched(1) [OF pf]
  have nw: "\<And>g. patched (func_at st1 g) \<Longrightarrow> patched (func_at st g) \<or> (g = f \<and> ready st f)"
    by (rule klp_patch_func_patched(2) [OF pf])
  have fin: "f \<in> set (func_list (object_at st ob))"
    using Cons.prems(2) by simp
  have k1: "\<forall>g \<in> set (func_list (object_at st1 ob)). patched (func_at st1 g) \<longrightarrow> ready st1 g"
  proof (intro ballI impI)
    fix g assume g: "g \<in> set (func_list (object_at st1 ob))" "patched (func_at st1 g)"
    from nw [OF g(2)] have "ready st g"
      using Cons.prems(4) g(1) by (auto simp: oa)
    then show "ready st1 g" by (simp only: patch_step_ready [OF ps])
  qed
  show ?case
  proof (cases "r1 = 0")
    case True
    then have rec: "klp_patch_funcs env st1 ob fs = (r, s)"
      using Cons.prems(1) pf by simp
    have sub: "set fs \<subseteq> set (func_list (object_at st1 ob))"
      using Cons.prems(2) by (simp add: oa)
    have np: "\<not> obj_patched (object_at st1 ob)"
      using Cons.prems(3) by (simp add: oa)
    note ih = Cons.IH [OF rec sub np k1]
    have a: "\<forall>ob'. obj_patched (object_at s ob') = obj_patched (object_at st ob')"
      using ih by (simp add: oa)
    have b: "\<forall>g. patched (func_at s g) \<longrightarrow>
            (if r = 0 then patched (func_at st g) \<or> (g \<in> set (f # fs) \<and> ready st g)
             else patched (func_at st g) \<and> g \<notin> set (func_list (object_at st ob)))"
    proof (intro allI impI)
      fix g assume g: "patched (func_at s g)"
      show "if r = 0 then patched (func_at st g) \<or> (g \<in> set (f # fs) \<and> ready st g)
             else patched (func_at st g) \<and> g \<notin> set (func_list (object_at st ob))"
      proof (cases "r = 0")
        case True
        with ih g have "patched (func_at st1 g) \<or> (g \<in> set fs \<and> ready st1 g)" by simp
        then show ?thesis
          using nw [of g] True by (auto simp: patch_step_ready [OF ps])
      next
        case False
        with ih g have g1: "patched (func_at st1 g)"
          and g2: "g \<notin> set (func_list (object_at st ob))" by (simp_all add: oa)
        from g2 fin have "g \<noteq> f" by blast
        then show ?thesis using nw [OF g1] g2 False by auto
      qed
    qed
    from a b show ?thesis by blast
  next
    case False
    then have rs: "r = r1" "s = klp_unpatch_object ob st1"
      using Cons.prems(1) pf by simp_all
    have a: "\<forall>ob'. obj_patched (object_at s ob') = obj_patched (object_at st ob')"
      using Cons.prems(3) by (auto simp: rs klp_unpatch_object_patched(3) oa)
    have b: "patched (func_at st g) \<and> g \<notin> set (func_list (object_at st ob))"
      if g: "patched (func_at s g)" for g
    proof -
      from g have g1: "patched (func_at st1 g)"
        unfolding rs by (rule klp_unpatch_object_patched(1))
      have g2: "g \<notin> set (func_list (object_at st ob))"
        using klp_unpatch_object_patched(2) [OF k1, of g] g by (auto simp: rs oa)
      then have "g \<noteq> f" using fin by blast
      with nw [OF g1] g2 show ?thesis by simp
    qed
    from a b False show ?thesis by (simp add: rs)
  qed
qed

lemma patched_frame:
  assumes "func_at s = func_at st" and "object_at s = object_at st"
      and "obj_list (patch_at s p) = obj_list (patch_at st p)"
  shows "patch_funcs s p = patch_funcs st p"
    and "patched_ready s p = patched_ready st p"
    and "patched_covered s p = patched_covered st p"
    and "none_patched s p = none_patched st p"
proof -
  show pf: "patch_funcs s p = patch_funcs st p"
    using assms by (simp add: patch_funcs_def)
  show "patched_ready s p = patched_ready st p"
    using assms by (simp add: patched_ready_def pf ready_def)
  show "patched_covered s p = patched_covered st p"
    using assms by (simp add: patched_covered_def pf)
  show "none_patched s p = none_patched st p"
    using assms by (simp add: none_patched_def pf)
qed

lemma none_patched_inv: "none_patched st p \<Longrightarrow> patched_ready st p \<and> patched_covered st p"
  by (simp add: none_patched_def patched_ready_def patched_covered_def)

lemma klp_patch_object_inv:
  assumes po: "klp_patch_object env st ob = (r, s)"
      and ob: "ob \<in> set (obj_list (patch_at st p))"
      and k: "patched_ready st p" and j: "patched_covered st p"
  shows "patched_ready s p \<and> patched_covered s p"
proof (cases "obj_patched (object_at st ob)")
  case True
  then have "s = st" using po by (simp add: klp_patch_object_def)
  then show ?thesis using k j by simp
next
  case False
  obtain r1 s1 where pf: "klp_patch_funcs env st ob (func_list (object_at st ob)) = (r1, s1)"
    by (cases "klp_patch_funcs env st ob (func_list (object_at st ob))")
  note ps1 = klp_patch_funcs_patch_step [OF pf]
  note ps = klp_patch_object_patch_step [OF po]
  have kob: "\<forall>g \<in> set (func_list (object_at st ob)). patched (func_at st g) \<longrightarrow> ready st g"
    using k ob by (simp add: patched_ready_def patch_funcs_iff)
  from klp_patch_funcs_patched [OF pf _ False kob]
  have fl: "\<And>ob'. obj_patched (object_at s1 ob') = obj_patched (object_at st ob')"
    and pt: "\<And>g. patched (func_at s1 g) \<Longrightarrow>
            (if r1 = 0 then patched (func_at st g) \<or>
                 (g \<in> set (func_list (object_at st ob)) \<and> ready st g)
             else patched (func_at st g) \<and> g \<notin> set (func_list (object_at st ob)))"
    by simp_all
  have s: "s = (if r1 \<noteq> 0 then s1 else upd_obj ob (\<lambda>x. x\<lparr>obj_patched := True\<rparr>) s1)"
    and r: "r = r1"
    using po False pf by (auto simp: klp_patch_object_def split: if_splits)
  have fa: "func_at s = func_at s1"
    by (simp add: s upd_defs)
  have op: "\<And>ob'. obj_patched (object_at s ob') =
      (obj_patched (object_at st ob') \<or> (r1 = 0 \<and> ob' = ob))"
    using fl by (simp add: s upd_defs)
  have pfs: "patch_funcs s p = patch_funcs st p" and ol: "patch_at s = patch_at st"
    and fls: "\<And>ob'. func_list (object_at s ob') = func_list (object_at st ob')"
    by (simp_all only: patch_stepD [OF ps])
  have rd: "\<And>g. ready s g = ready st g"
    by (simp only: patch_step_ready [OF ps])
  have "patched_ready s p"
    unfolding patched_ready_def pfs rd fa
  proof (intro ballI impI)
    fix g assume g: "g \<in> set (patch_funcs st p)" "patched (func_at s1 g)"
    from pt [OF g(2)] k g(1) show "ready st g"
      by (auto simp: patched_ready_def split: if_splits)
  qed
  moreover have "patched_covered s p"
    unfolding patched_covered_def pfs fa ol fls op
  proof (intro ballI impI)
    fix g assume g: "g \<in> set (patch_funcs st p)" "patched (func_at s1 g)"
    show "\<exists>ob' \<in> set (obj_list (patch_at st p)). g \<in> set (func_list (object_at st ob')) \<and>
        (obj_patched (object_at st ob') \<or> (r1 = 0 \<and> ob' = ob))"
    proof (cases "patched (func_at st g)")
      case True
      with j g(1) show ?thesis by (auto simp: patched_covered_def)
    next
      case False
      with pt [OF g(2)] have "r1 = 0 \<and> g \<in> set (func_list (object_at st ob))"
        by (auto split: if_splits)
      with ob show ?thesis by blast
    qed
  qed
  ultimately show ?thesis by simp
qed

lemma disable_patch_none:
  assumes "patched_ready st p" and "patched_covered st p"
  shows "none_patched (snd (disable_patch st p)) p"
proof -
  let ?u = "klp_unpatch_objects st p"
  have "none_patched (snd (disable_patch st p)) p = none_patched ?u p"
    by (rule patched_frame(4))
      (simp_all add: disable_patch_def Let_def module_put_def upd_defs split: option.splits)
  then show ?thesis using klp_unpatch_objects_none [OF assms] by simp
qed

lemma enable_patch_objects_failure:
  assumes "enable_patch_objects env st p obs = (r, s)" and "r \<noteq> 0"
      and "set obs \<subseteq> set (obj_list (patch_at st p))"
      and "patched_ready st p" and "patched_covered st p"
  shows "none_patched s p"
  using assms
proof (induction obs arbitrary: st)
  case Nil
  then show ?case by simp
next
  case (Cons ob obs)
  show ?case
  proof (cases "klp_is_object_loaded st ob")
    case False
    then have "enable_patch_objects env st p obs = (r, s)" using Cons.prems(1) by simp
    from Cons.IH [OF this Cons.prems(2) _ Cons.prems(4,5)] Cons.prems(3)
    show ?thesis by simp
  next
    case True
    obtain r1 s1 where po: "klp_patch_object env st ob = (r1, s1)"
      by (cases "klp_patch_object env st ob")
    note ps = klp_patch_object_patch_step [OF po]
    have ob: "ob \<in> set (obj_list (patch_at st p))" using Cons.prems(3) by simp
    note inv = klp_patch_object_inv [OF po ob Cons.prems(4,5)]
    show ?thesis
    proof (cases "r1 = 0")
      case True
      then have rec: "enable_patch_objects env s1 p obs = (r, s)"
        using Cons.prems(1) \<open>klp_is_object_loaded st ob\<close> po by simp
      have "set obs \<subseteq> set (obj_list (patch_at s1 p))"
        using Cons.prems(3) by (simp add: patch_stepD(2) [OF ps])
      from Cons.IH [OF rec Cons.prems(2) this] inv show ?thesis by simp
    next
      case False
      then have "s = snd (disable_patch s1 p)"
        using Cons.prems(1) \<open>klp_is_object_loaded st ob\<close> po by simp
      then show ?thesis using disable_patch_none inv by simp
    qed
  qed
qed

lemma enable_patch_failure:
  assumes ep: "enable_patch env st p = (r, s)" and r: "r \<noteq> 0"
      and en: "\<not> enabled (patch_at st p)" and np: "none_patched st p"
  shows "none_patched s p"
proof (cases "module_get env st (pmod (patch_at st p))")
  case (Pair b st1)
  note fr = module_get_frame [OF Pair]
  show ?thesis
  proof (cases b)
    case False
    then have "s = st1" using ep en Pair by (simp add: enable_patch_def)
    then show ?thesis using np patched_frame(4) [of st1 st p] fr by simp
  next
    case True
    let ?s2 = "upd_patch p (\<lambda>x. x\<lparr>enabled := True\<rparr>) st1"
    have rec: "enable_patch_objects env ?s2 p (obj_list (patch_at st1 p)) = (r, s)"
      using ep en Pair True by (simp add: enable_patch_def)
    have e: "func_at ?s2 = func_at st" "object_at ?s2 = object_at st"
      "obj_list (patch_at ?s2 p) = obj_list (patch_at st p)"
      using fr by (simp_all add: upd_defs)
    have "none_patched ?s2 p"
      using np patched_frame(4) [OF e] by simp
    then have inv: "patched_ready ?s2 p" "patched_covered ?s2 p"
      using none_patched_inv by blast+
    have sub: "set (obj_list (patch_at st1 p)) \<subseteq> set (obj_list (patch_at ?s2 p))"
      using fr e by simp
    from enable_patch_objects_failure [OF rec r sub inv] show ?thesis .
  qed
qed

lemma klp_try_enable_patch_failure:
  assumes "klp_try_enable_patch env st p = (r, s)" and "r \<noteq> 0"
      and "\<not> enabled (patch_at st p)" and "none_patched st p"
  shows "none_patched s p"
proof (cases "klp_check_patch_kprobed env st p \<or> klp_check_calltrace env st p True \<noteq> 0")
  case True
  then have "s = st" using assms(1) by (auto simp: klp_try_enable_patch_def Let_def split: if_splits)
  then show ?thesis using assms(4) by simp
next
  case False
  then have "enable_patch env st p = (r, s)"
    using assms(1) by (auto simp: klp_try_enable_patch_def Let_def split: if_splits)
  from enable_patch_failure [OF this assms(2,3,4)] show ?thesis .
qed

lemma klp_mem_recycle_funcs_node:
  "klp_mem_recycle_funcs fs st = Some s \<Longrightarrow>
   func_node (func_at s g) = (if g \<in> set fs then None else func_node (func_at st g))"
proof (induction fs arbitrary: st)
  case Nil
  then show ?case by simp
next
  case (Cons f fs)
  then obtain s1 where a: "func_node_free f st = Some s1"
    and b: "klp_mem_recycle_funcs fs s1 = Some s"
    by (auto split: option.splits)
  show ?case
    using Cons.IH [OF b] by (simp add: func_node_free_some(1) [OF a])
qed

lemma klp_mem_recycle_nodes:
  assumes "klp_mem_recycle st p = Some s" and "f \<in> set (patch_funcs st p)"
  shows "func_node (func_at s f) = None"
  using assms klp_mem_recycle_funcs_node [of "patch_funcs st p" st s f]
  by (simp add: klp_mem_recycle_def)

lemma mem_step_none_patched: "mem_step st s \<Longrightarrow> none_patched s p = none_patched st p"
  by (simp add: none_patched_def mem_stepD)

lemma fold_unpatch_objects_flags:
  "obj_patched (object_at (fold (\<lambda>ob s. if obj_patched (object_at s ob)
      then klp_unpatch_object ob s else s) obs st) ob) =
   (obj_patched (object_at st ob) \<and> ob \<notin> set obs)"
proof (induction obs arbitrary: st)
  case Nil
  then show ?case by simp
next
  case (Cons o1 obs)
  let ?s1 = "if obj_patched (object_at st o1) then klp_unpatch_object o1 st else st"
  have "obj_patched (object_at ?s1 ob) = (obj_patched (object_at st ob) \<and> ob \<noteq> o1)"
    by (cases "obj_patched (object_at st o1)") (auto simp: klp_unpatch_object_patched(3))
  then show ?case using Cons.IH [of ?s1] by auto
qed

lemma disable_patch_flags:
  "ob \<in> set (obj_list (patch_at st p)) \<Longrightarrow> \<not> obj_patched (object_at (snd (disable_patch st p)) ob)"
proof -
  assume ob: "ob \<in> set (obj_list (patch_at st p))"
  have "object_at (snd (disable_patch st p)) = object_at (klp_unpatch_objects st p)"
    by (simp add: disable_patch_def Let_def module_put_def upd_defs split: option.splits)
  then show ?thesis
    using ob by (simp add: klp_unpatch_objects_def fold_unpatch_objects_flags)
qed

lemma enable_patch_objects_failure_flags:
  assumes "enable_patch_objects env st p obs = (r, s)" and "r \<noteq> 0"
  shows "no_object_patched s p"
  using assms
proof (induction obs arbitrary: st)
  case Nil
  then show ?case by simp
next
  case (Cons ob obs)
  show ?case
  proof (cases "klp_is_object_loaded st ob")
    case False
    then have "enable_patch_objects env st p obs = (r, s)" using Cons.prems(1) by simp
    from Cons.IH [OF this Cons.prems(2)] show ?thesis .
  next
    case True
    obtain r1 s1 where po: "klp_patch_object env st ob = (r1, s1)"
      by (cases "klp_patch_object env st ob")
    show ?thesis
    proof (cases "r1 = 0")
      case True
      then have rec: "enable_patch_objects env s1 p obs = (r, s)"
        using Cons.prems(1) \<open>klp_is_object_loaded st ob\<close> po by simp
      from Cons.IH [OF rec Cons.prems(2)] show ?thesis .
    next
      case False
      then have s: "s = snd (disable_patch s1 p)"
        using Cons.prems(1) \<open>klp_is_object_loaded st ob\<close> po by simp
      have "obj_list (patch_at s p) = obj_list (patch_at s1 p)"
        unfolding s by (rule en_stepD(7) [OF disable_patch_en_step])
      then show ?thesis
        unfolding no_object_patched_def s using disable_patch_flags [of _ s1 p] by simp
    qed
  qed
qed

lemma klp_try_enable_patch_failure_flags:
  assumes te: "klp_try_enable_patch env st p = (r, s)" and r: "r \<noteq> 0"
      and en: "\<not> enabled (patch_at st p)" and no: "no_object_patched st p"
  shows "no_object_patched s p"
proof (cases "klp_check_patch_kprobed env st p \<or> klp_check_calltrace env st p True \<noteq> 0")
  case True
  then have "s = st" using te by (auto simp: klp_try_enable_patch_def Let_def split: if_splits)
  then show ?thesis using no by simp
next
  case False
  then have ep: "enable_patch env st p = (r, s)"
    using te by (auto simp: klp_try_enable_patch_def Let_def split: if_splits)
  show ?thesis
  proof (cases "module_get env st (pmod (patch_at st p))")
    case (Pair b st1)
    note fr = module_get_frame [OF Pair]
    show ?thesis
    proof (cases b)
      case False
      then have "s = st1" using ep en Pair by (simp add: enable_patch_def)
      then show ?thesis using no fr by (simp add: no_object_patched_def)
    next
      case True
      have "enable_patch_objects env (upd_patch p (\<lambda>x. x\<lparr>enabled := True\<rparr>) st1) p
          (obj_list (patch_at st1 p)) = (r, s)"
        using ep en Pair True by (simp add: enable_patch_def)
      from enable_patch_objects_failure_flags [OF this r] show ?thesis .
    qed
  qed
qed

lemma mem_step_no_object_patched:
  "mem_step st s \<Longrightarrow> no_object_patched s p = no_object_patched st p"
  by (simp add: no_object_patched_def mem_stepD)

text \<open>Whenever \<open>__klp_enable_patch\<close>, called for a disabled patch none of whose
  functions is patched, returns an error, whatever the step that failed (the stacking
  gate, the allocation of the function-site nodes, a kprobe inside a function, the check
  of the call traces, the reference on the module, writing the instructions of some
  function): the patch is still disabled and none of its functions is patched; when none
  of its objects was flagged as patched before, none is afterwards; when the stacking
  gate refused the call nothing has changed at all, and otherwise every function of the
  patch has given its function-site node back (\<open>func_node\<close> is NULL again).\<close>

lemma klp_enable_patch_failure_clean:
  assumes "klp_enable_patch' env st p = Some (ret, st')" and "ret \<noteq> 0"
      and "\<not> enabled (patch_at st p)"
      and "\<forall>f \<in> set (patch_funcs st p). \<not> patched (func_at st f)"
  shows "\<not> enabled (patch_at st' p) \<and> patch_funcs st' p = patch_funcs st p \<and>
         obj_list (patch_at st' p) = obj_list (patch_at st p) \<and>
         (\<forall>f \<in> set (patch_funcs st p). \<not> patched (func_at st' f)) \<and>
         (no_object_patched st p \<longrightarrow> no_object_patched st' p) \<and>
         (enable_out_of_order env st p \<longrightarrow> st' = st) \<and>
         (\<not> enable_out_of_order env st p \<longrightarrow>
            (\<forall>f \<in> set (patch_funcs st p). func_node (func_at st' f) = None))"
proof (cases "enable_out_of_order env st p")
  case True
  then have "st' = st"
    using assms(1,3) by (auto simp: klp_enable_patch'_def enable_out_of_order_def)
  then show ?thesis using assms(3,4) True by simp
next
  case False
  note np = assms(4) [folded none_patched_def]
  obtain r1 st1 where mp: "klp_mem_prepare env st p = Some (r1, st1)"
    using assms(1,3) False
    by (auto simp: klp_enable_patch'_def enable_out_of_order_def split: option.splits)
  note ms1 = klp_mem_prepare_mem_step [OF mp]
  have np1: "none_patched st1 p"
    using np by (simp only: mem_step_none_patched [OF ms1])
  have en1: "\<not> enabled (patch_at st1 p)"
    using assms(3) by (simp only: mem_stepD(2) [OF ms1] not_False_eq_True)
  have pf1: "patch_funcs st1 p = patch_funcs st p"
    by (rule mem_stepD(14) [OF ms1])
  have main: "\<not> enabled (patch_at st' p) \<and> patch_funcs st' p = patch_funcs st p \<and>
      obj_list (patch_at st' p) = obj_list (patch_at st p) \<and>
      none_patched st' p \<and> (no_object_patched st p \<longrightarrow> no_object_patched st' p) \<and>
      (\<forall>f \<in> set (patch_funcs st' p). func_node (func_at st' f) = None)"
  proof (cases "r1 = 0")
    case True
    obtain r2 st2 where te: "klp_try_enable_patch env st1 p = (r2, st2)"
      by (cases "klp_try_enable_patch env st1 p")
    have r2: "r2 \<noteq> 0" and s: "klp_mem_recycle st2 p = Some st'"
      using assms(1,2,3) False mp True te
      by (auto simp: klp_enable_patch'_def enable_out_of_order_def klp_stop_machine_def
          split: if_splits)
    note ms2 = klp_mem_recycle_mem_step [OF s]
    note es = klp_try_enable_patch_en_step [OF te en1]
    have a: "\<not> enabled (patch_at st' p)"
      using es r2 by (simp add: mem_stepD(2) [OF ms2])
    have b: "patch_funcs st' p = patch_funcs st p"
      using es en_step_patch_funcs [of p st1 st2 p]
      by (simp add: mem_stepD(14) [OF ms2] pf1)
    have b': "obj_list (patch_at st' p) = obj_list (patch_at st p)"
      using es en_stepD(7) [of p st1 st2 p]
      by (simp add: mem_stepD(2) [OF ms2] mem_stepD(2) [OF ms1])
    have c: "none_patched st' p"
      using klp_try_enable_patch_failure [OF te r2 en1 np1]
      by (simp add: mem_step_none_patched [OF ms2])
    have d: "no_object_patched st p \<longrightarrow> no_object_patched st' p"
      using klp_try_enable_patch_failure_flags [OF te r2 en1]
      by (simp add: mem_step_no_object_patched [OF ms2] mem_step_no_object_patched [OF ms1])
    have e: "\<forall>f \<in> set (patch_funcs st' p). func_node (func_at st' f) = None"
      using klp_mem_recycle_nodes [OF s] by (simp add: mem_stepD(14) [OF ms2])
    from a b b' c d e show ?thesis by blast
  next
    case r: False
    then have s: "st' = st1"
      using assms(1,3) False mp
      by (auto simp: klp_enable_patch'_def enable_out_of_order_def split: if_splits)
    obtain ok s0 where pfs: "klp_mem_prepare_funcs env st (patch_funcs st p) = (ok, s0)"
      by (cases "klp_mem_prepare_funcs env st (patch_funcs st p)")
    have s1: "klp_mem_recycle s0 p = Some st1"
      using mp r pfs by (auto simp: klp_mem_prepare_def split: if_splits)
    have e: "\<forall>f \<in> set (patch_funcs st' p). func_node (func_at st' f) = None"
      unfolding s using klp_mem_recycle_nodes [OF s1]
      by (simp add: mem_stepD(14) [OF klp_mem_recycle_mem_step [OF s1]])
    show ?thesis
      using en1 pf1 np1 e
      by (simp add: s mem_step_no_object_patched [OF ms1] mem_stepD(2) [OF ms1])
  qed
  then show ?thesis using False by (simp add: none_patched_def)
qed

lemma st_two_simps:
  "patch_funcs st_two 10 = [12, 13]" "enabled (patch_at st_two p) = False"
  "\<not> patched (func_at st_two 12)" "\<not> patched (func_at st_two 13)"
  "klp_patches st_two = [10, 20]" "obj_list (patch_at st_two 10) = [11]"
  "\<not> obj_patched (object_at st_two 11)"
  by (simp_all add: st_two_def st_reg_def st_boot_def null_func_def null_object_def
      null_patch_def patch_funcs_def)

lemma st_two_run: "map_option fst (klp_enable_patch' env_fault st_two 10) = Some (- EINVAL)"
  by (simp add: st_two_def st_reg_def st_boot_def model_defs env_fault_def env0_simps env0_def
      list_ex_iff node_freed_def)

text \<open>Enabling patch 10 of \<open>st_two\<close> in \<open>env_fault\<close> patches \<open>bar\<close>, fails on \<open>foo\<close> and
  takes the patch of \<open>bar\<close> back.\<close>

lemma klp_enable_patch_failure_example:
  "\<exists>s. klp_enable_patch' env_fault st_two 10 = Some (- EINVAL, s) \<and>
       \<not> enabled (patch_at s 10) \<and> \<not> patched (func_at s 12) \<and> \<not> patched (func_at s 13) \<and>
       \<not> obj_patched (object_at s 11) \<and>
       func_node (func_at s 12) = None \<and> func_node (func_at s 13) = None"
proof -
  have g: "\<not> enable_out_of_order env_fault st_two 10"
    by (simp add: enable_out_of_order_def st_two_simps)
  have n: "no_object_patched st_two 10"
    by (simp add: no_object_patched_def st_two_simps)
  obtain s where pr: "klp_enable_patch' env_fault st_two 10 = Some (- EINVAL, s)"
    using st_two_run by (cases "klp_enable_patch' env_fault st_two 10") auto
  have t: "\<not> enabled (patch_at s 10) \<and> patch_funcs s 10 = patch_funcs st_two 10 \<and>
      obj_list (patch_at s 10) = obj_list (patch_at st_two 10) \<and>
      (\<forall>f \<in> set (patch_funcs st_two 10). \<not> patched (func_at s f)) \<and>
      (no_object_patched st_two 10 \<longrightarrow> no_object_patched s 10) \<and>
      (enable_out_of_order env_fault st_two 10 \<longrightarrow> s = st_two) \<and>
      (\<not> enable_out_of_order env_fault st_two 10 \<longrightarrow>
         (\<forall>f \<in> set (patch_funcs st_two 10). func_node (func_at s f) = None))"
    by (rule klp_enable_patch_failure_clean [OF pr]) (simp_all add: st_two_simps)
  from t n have "no_object_patched s 10" and "obj_list (patch_at s 10) = [11]"
    by (simp_all add: st_two_simps)
  then have o: "\<not> obj_patched (object_at s 11)"
    by (simp add: no_object_patched_def)
  show ?thesis
    using t g o pr by (simp add: st_two_simps)
qed

lemma env_alias_simps:
  "kobject_add env_alias k = 0" "is_livepatch_module env_alias m"
  "jump_label_register env_alias m = 0" "klp_static_call_register env_alias m = 0"
  "jump_label_text_reserved env_alias a b = 0" "static_call_text_reserved env_alias a b = 0"
  "kallsyms_lookup_size_offset env_alias a = (if a = 0 then None else Some 64)"
  "KLP_MAX_REPLACE_SIZE env_alias = 16" "MODULE_NAME_LEN env_alias = 56"
  "try_module_get env_alias m" "\<not> get_kprobe env_alias a" "CONFIG_LIVEPATCH_STACK env_alias"
  "CONFIG_PREEMPTION env_alias" "CONFIG_LIVEPATCH_RESTRICT_KPROBE env_alias"
  "arch_check_jump_insn env_alias a" "kzalloc_atomic env_alias a" "arch_klp_mem_alloc env_alias i"
  "arch_klp_save_old_code env_alias a = (0, a)" "klp_patch_text env_alias a b = 0"
  "arch_klp_check_calltrace env_alias = stack_walker [[8200]]"
  "klp_find_object_symbol env_alias None ''bar'' 0 = (0, 8192)"
  "klp_find_object_symbol env_alias None ''bar_alias'' 0 = (0, 8192)"
  by (simp_all add: env_alias_def env0_def klp_find_object_symbol_occ occurrences_def
      object_syms_def)

lemma st_alias_run: "klp_register_patch env_alias st_alias_boot (Some 50) = (0, st_alias)"
  by (simp add: st_alias_def st_alias_boot_def st_boot_def model_defs env_alias_simps)

lemma st_alias_prep_run: "klp_mem_prepare env_alias st_alias 50 = Some (0, st_alias_prep)"
  by (simp add: st_alias_prep_def st_alias_def st_alias_boot_def st_boot_def model_defs
      env_alias_simps Let_def)

lemma st_alias_simps:
  "patch_funcs st_alias 50 = [52, 53]" "patch_funcs st_alias_prep 50 = [52, 53]"
  "func_node (func_at st_alias_prep 52) = Some 100"
  "func_node (func_at st_alias_prep 53) = Some 100"
  "func_stack (node_at st_alias_prep 100) = []" "\<not> node_freed st_alias_prep 100"
  "enabled (patch_at st_alias q) = False" "klp_patches st_alias = [50]"
  "\<not> patched (func_at st_alias_prep 52)" "force (func_at st_alias_prep 52) = 0"
  "active_range st_alias_prep 52 = (8192, 64)"
  "old_func (func_at st_alias_prep 52) = 8192" "old_size (func_at st_alias_prep 52) = 64"
  by (simp_all add: st_alias_prep_def st_alias_def st_alias_boot_def st_boot_def
      null_func_def null_object_def null_patch_def patch_funcs_def node_freed_def
      active_range_def node_stack_def)

lemma env_alias_probe_run:
  "klp_mem_prepare env_alias_probe st_alias 50 = Some (0, st_alias_prep)"
  "klp_check_patch_kprobed env_alias_probe st_alias_prep 50"
  by (simp_all add: st_alias_prep_def st_alias_def st_alias_boot_def st_boot_def model_defs
      env_alias_probe_def env_alias_simps env_alias_def env0_def Let_def list_ex_iff)

text \<open>
  Claim C2 fails on the code for a patch two of whose functions replace the same old
  address. \<open>klp_register_patch\<close> accepts the patch, \<open>klp_mem_prepare\<close> gives both functions
  the same function-site node, the rendezvous fails (here on the activeness check, a CPU
  being inside \<open>bar\<close>, or on a kprobe), and on the way out \<open>klp_mem_recycle\<close> calls
  \<open>func_node_free\<close> for the first function, which unlinks and frees the node, and then for
  the second, which uses the freed node: \<open>__klp_enable_patch\<close> does not return the error.
\<close>

theorem klp_enable_patch_shared_node:
  "klp_register_patch env_alias st_alias_boot (Some 50) = (0, st_alias) \<and>
   klp_mem_prepare env_alias st_alias 50 = Some (0, st_alias_prep) \<and>
   patch_funcs st_alias_prep 50 = [52, 53] \<and>
   func_node (func_at st_alias_prep 52) = Some 100 \<and>
   func_node (func_at st_alias_prep 53) = Some 100 \<and>
   klp_stop_machine (klp_try_enable_patch env_alias) st_alias_prep 50 =
     (- EAGAIN, st_alias_prep) \<and>
   (\<exists>s. func_node_free 52 st_alias_prep = Some s \<and> node_freed s 100 \<and>
        func_node (func_at s 53) = Some 100 \<and> func_node_free 53 s = None) \<and>
   klp_mem_recycle st_alias_prep 50 = None \<and>
   klp_enable_patch' env_alias st_alias 50 = None \<and>
   enabled_store env_alias st_alias 50 (Some True) 1 = None \<and>
   klp_stop_machine (klp_try_enable_patch env_alias_probe) st_alias_prep 50 =
     (- EINVAL, st_alias_prep) \<and>
   klp_enable_patch' env_alias_probe st_alias 50 = None"
proof -
  have al: "\<forall>a. kzalloc_atomic env_alias a" and kp: "\<forall>a. \<not> get_kprobe env_alias a"
    by (simp_all add: env_alias_simps)
  note nk = klp_check_patch_kprobed_quiet [OF kp]
  have hit: "klp_check_calltrace env_alias st_alias_prep 50 True = - EAGAIN"
    by (rule enable_hit [where stacks = "[[8200]]" and pc = 8200 and f = 52])
      (simp_all add: env_alias_simps st_alias_simps klp_size_to_check_def)
  have tr: "klp_stop_machine (klp_try_enable_patch env_alias) st_alias_prep 50 =
      (- EAGAIN, st_alias_prep)"
    using nk hit by (simp add: klp_stop_machine_def klp_try_enable_patch_def Let_def)
  have rc: "klp_mem_recycle st_alias_prep 50 = None"
    by (rule klp_mem_recycle_shared [where f = 52 and g = 53 and n = 100])
      (simp_all add: st_alias_simps)
  have gate: "\<not> enable_out_of_order env_alias st_alias 50"
    "\<not> enable_out_of_order env_alias_probe st_alias 50"
    by (simp_all add: enable_out_of_order_def st_alias_simps)
  have en: "klp_enable_patch' env_alias st_alias 50 = None"
    using tr rc st_alias_prep_run gate(1)
    by (simp add: klp_enable_patch'_def enable_out_of_order_def st_alias_simps)
  have st: "enabled_store env_alias st_alias 50 (Some True) 1 = None"
    using en by (simp add: enabled_store_def klp_is_patch_registered_def st_alias_simps)
  have tr2: "klp_stop_machine (klp_try_enable_patch env_alias_probe) st_alias_prep 50 =
      (- EINVAL, st_alias_prep)"
    using env_alias_probe_run(2) by (simp add: klp_stop_machine_def klp_try_enable_patch_def)
  have en2: "klp_enable_patch' env_alias_probe st_alias 50 = None"
    using tr2 rc env_alias_probe_run(1) gate(2)
    by (simp add: klp_enable_patch'_def enable_out_of_order_def st_alias_simps)
  obtain s where s: "func_node_free 52 st_alias_prep = Some s"
    using func_node_free_fault [of 52 st_alias_prep] by (auto simp: st_alias_simps)
  note p = func_node_free_some [OF s]
  have fr: "node_freed s 100" by (simp add: p(4) st_alias_simps)
  have pt: "func_node (func_at s 53) = Some 100" by (simp add: p(1) st_alias_simps)
  have "func_node_free 53 s = None"
    using fr pt by (simp add: func_node_free_fault)
  with s fr pt have two: "\<exists>s. func_node_free 52 st_alias_prep = Some s \<and> node_freed s 100 \<and>
        func_node (func_at s 53) = Some 100 \<and> func_node_free 53 s = None" by blast
  show ?thesis
    using st_alias_run st_alias_prep_run tr two rc en st tr2 en2
    by (simp add: st_alias_simps)
qed

section \<open>Registering a patch\<close>

lemma static_eq_refl: "static_eq st st"
  by (simp add: static_eq_def)

lemma static_eq_trans: "static_eq a b \<Longrightarrow> static_eq b c \<Longrightarrow> static_eq a c"
  by (simp add: static_eq_def)

lemma init_step_refl: "init_step st st"
  by (simp add: init_step_def static_eq_refl)

lemma init_step_trans: "init_step a b \<Longrightarrow> init_step b c \<Longrightarrow> init_step a c"
  unfolding init_step_def using static_eq_trans by auto

lemma static_eq_lists:
  assumes "static_eq st s"
  shows "klp_for_each_object_static s p = klp_for_each_object_static st p"
    and "klp_for_each_func_static s ob = klp_for_each_func_static st ob"
    and "klp_is_module s ob = klp_is_module st ob"
  using assms
  by (simp_all add: static_eq_def klp_for_each_object_static_def klp_for_each_func_static_def
      klp_is_module_def split: option.splits)

lemma static_eq_check_funcs: "static_eq st s \<Longrightarrow> klp_check_funcs s fs = klp_check_funcs st fs"
  by (induction fs) (simp_all add: static_eq_def Let_def)

lemma klp_check_funcs_values: "klp_check_funcs st fs = 0 \<or> klp_check_funcs st fs = - EINVAL"
  by (induction fs) (simp_all add: Let_def)

lemma klp_check_funcs_bad:
  "f \<in> set fs \<Longrightarrow>
   old_name (func_at st f) = None \<or> (new_func (func_at st f) = 0 \<and> \<not> nop (func_at st f)) \<Longrightarrow>
   klp_check_funcs st fs = - EINVAL"
  by (induction fs) (auto simp: Let_def)

subsection \<open>The early initialisation\<close>

lemma fold_init_func_early:
  "static_eq s (fold (klp_init_func_early ob) fs s) \<and>
   patch_at (fold (klp_init_func_early ob) fs s) = patch_at s \<and>
   (\<forall>ob'. func_list (object_at (fold (klp_init_func_early ob) fs s) ob') =
      (if ob' = ob then func_list (object_at s ob) @ fs else func_list (object_at s ob')))"
proof (induction fs arbitrary: s)
  case Nil
  then show ?case by (simp add: static_eq_refl)
next
  case (Cons f fs)
  let ?s1 = "klp_init_func_early ob f s"
  have a: "static_eq s ?s1" "patch_at ?s1 = patch_at s"
    "\<And>ob'. func_list (object_at ?s1 ob') =
       (if ob' = ob then func_list (object_at s ob) @ [f] else func_list (object_at s ob'))"
    by (simp_all add: klp_init_func_early_def static_eq_def upd_defs)
  from Cons.IH [where s = ?s1] a(1) have "static_eq s (fold (klp_init_func_early ob) (f # fs) s)"
    using static_eq_trans by auto
  then show ?case using Cons.IH [where s = ?s1] a(2,3) by simp
qed

lemma klp_init_object_early_props:
  "static_eq s (klp_init_object_early p ob s)"
  "obj_list (patch_at (klp_init_object_early p ob s) q) =
     (if q = p then obj_list (patch_at s p) @ [ob] else obj_list (patch_at s q))"
  "func_list (object_at (klp_init_object_early p ob s) ob') =
     (if ob' = ob then [] else func_list (object_at s ob'))"
  by (simp_all add: klp_init_object_early_def static_eq_def upd_defs)

lemma fold_init_object_early:
  "static_eq s (fold (\<lambda>ob s. fold (klp_init_func_early ob) (klp_for_each_func_static s ob)
       (klp_init_object_early p ob s)) obs s) \<and>
   obj_list (patch_at (fold (\<lambda>ob s. fold (klp_init_func_early ob) (klp_for_each_func_static s ob)
       (klp_init_object_early p ob s)) obs s) p) = obj_list (patch_at s p) @ obs \<and>
   (\<forall>ob'. func_list (object_at (fold (\<lambda>ob s. fold (klp_init_func_early ob)
       (klp_for_each_func_static s ob) (klp_init_object_early p ob s)) obs s) ob') =
      (if ob' \<in> set obs then klp_for_each_func_static s ob' else func_list (object_at s ob')))"
proof (induction obs arbitrary: s)
  case Nil
  then show ?case by (simp add: static_eq_refl)
next
  case (Cons ob obs)
  let ?e = "klp_init_object_early p ob s"
  let ?s1 = "fold (klp_init_func_early ob) (klp_for_each_func_static s ob) ?e"
  note e = klp_init_object_early_props [where s = s and p = p and ob = ob]
  note f = fold_init_func_early [where s = ?e and ob = ob and fs = "klp_for_each_func_static s ob"]
  have se: "static_eq s ?s1"
    using e(1) f static_eq_trans by blast
  have ol: "obj_list (patch_at ?s1 p) = obj_list (patch_at s p) @ [ob]"
    using f by (simp add: e(2))
  have fl: "\<And>ob'. func_list (object_at ?s1 ob') =
      (if ob' = ob then klp_for_each_func_static s ob else func_list (object_at s ob'))"
    using f by (simp add: e(3))
  note ih = Cons.IH [where s = ?s1]
  have a: "static_eq s (fold (\<lambda>ob s. fold (klp_init_func_early ob) (klp_for_each_func_static s ob)
       (klp_init_object_early p ob s)) (ob # obs) s)"
    using ih se static_eq_trans by auto
  have b: "obj_list (patch_at (fold (\<lambda>ob s. fold (klp_init_func_early ob)
       (klp_for_each_func_static s ob) (klp_init_object_early p ob s)) (ob # obs) s) p) =
       obj_list (patch_at s p) @ ob # obs"
    using ih ol by simp
  have c: "\<And>ob'. func_list (object_at (fold (\<lambda>ob s. fold (klp_init_func_early ob)
       (klp_for_each_func_static s ob) (klp_init_object_early p ob s)) (ob # obs) s) ob') =
      (if ob' \<in> set (ob # obs) then klp_for_each_func_static s ob'
       else func_list (object_at s ob'))"
    using ih fl by (simp add: static_eq_lists(2) [OF se])
  from a b c show ?case by blast
qed

lemma klp_init_patch_early_props:
  "static_eq st (klp_init_patch_early st p)"
  "obj_list (patch_at (klp_init_patch_early st p) p) = klp_for_each_object_static st p"
  "ob \<in> set (klp_for_each_object_static st p) \<Longrightarrow>
   func_list (object_at (klp_init_patch_early st p) ob) = klp_for_each_func_static st ob"
proof -
  let ?s0 = "upd_patch p (\<lambda>x. x\<lparr>obj_list := [], enabled := False\<rparr>) st"
  have s0: "static_eq st ?s0" "obj_list (patch_at ?s0 p) = []"
    by (simp_all add: static_eq_def upd_defs)
  note f = fold_init_object_early [where s = ?s0 and p = p and obs = "klp_for_each_object_static st p"]
  show "static_eq st (klp_init_patch_early st p)"
    unfolding klp_init_patch_early_def using f s0(1) static_eq_trans by blast
  show "obj_list (patch_at (klp_init_patch_early st p) p) = klp_for_each_object_static st p"
    unfolding klp_init_patch_early_def using f s0(2) by simp
  show "ob \<in> set (klp_for_each_object_static st p) \<Longrightarrow>
   func_list (object_at (klp_init_patch_early st p) ob) = klp_for_each_func_static st ob"
    unfolding klp_init_patch_early_def using f by (simp add: static_eq_lists(2) [OF s0(1)])
qed

subsection \<open>The initialisation of the objects\<close>

lemma klp_init_func_loaded_init_step:
  "klp_init_func_loaded env st ob f = (r, s) \<Longrightarrow> init_step st s"
  by (auto simp: klp_init_func_loaded_def init_step_def static_eq_def Let_def upd_defs
        split: prod.splits if_splits option.splits)

lemma klp_init_funcs_loaded_init_step:
  "klp_init_funcs_loaded env st ob fs = (r, s) \<Longrightarrow> init_step st s"
proof (induction fs arbitrary: st)
  case Nil
  then show ?case by (simp add: init_step_refl)
next
  case (Cons f fs)
  obtain r1 s1 where a: "klp_init_func_loaded env st ob f = (r1, s1)"
    by (cases "klp_init_func_loaded env st ob f")
  note i = klp_init_func_loaded_init_step [OF a]
  show ?case
  proof (cases "r1 = 0")
    case True
    then have "klp_init_funcs_loaded env s1 ob fs = (r, s)" using Cons.prems a by simp
    from init_step_trans [OF i Cons.IH [OF this]] show ?thesis .
  next
    case False
    then have "s = s1" using Cons.prems a by simp
    then show ?thesis using i by simp
  qed
qed

lemma klp_init_func_init_step:
  "klp_init_func env st ob f = (r, s) \<Longrightarrow> init_step st s"
  by (auto simp: klp_init_func_def init_step_def static_eq_def Let_def upd_defs
        split: if_splits)

lemma klp_init_funcs_init_step:
  "klp_init_funcs env st ob fs = (r, s) \<Longrightarrow> init_step st s"
proof (induction fs arbitrary: st)
  case Nil
  then show ?case by (simp add: init_step_refl)
next
  case (Cons f fs)
  obtain r1 s1 where a: "klp_init_func env st ob f = (r1, s1)"
    by (cases "klp_init_func env st ob f")
  note i = klp_init_func_init_step [OF a]
  show ?case
  proof (cases "r1 = 0")
    case True
    then have "klp_init_funcs env s1 ob fs = (r, s)" using Cons.prems a by simp
    from init_step_trans [OF i Cons.IH [OF this]] show ?thesis .
  next
    case False
    then have "s = s1" using Cons.prems a by simp
    then show ?thesis using i by simp
  qed
qed

lemma klp_find_object_module_init_step:
  "klp_find_object_module env st ob = (r, s) \<Longrightarrow> init_step st s"
  by (auto simp: klp_find_object_module_def module_get_def init_step_def static_eq_def upd_defs
        split: option.splits if_splits prod.splits bool.splits)

lemma klp_init_object_out_init_step: "init_step st (klp_init_object_out st ob)"
  by (simp add: klp_init_object_out_def module_put_def init_step_def static_eq_def upd_defs
        split: option.splits)

lemma klp_init_object_loaded_init_step:
  "klp_init_object_loaded env st p ob = (r, s) \<Longrightarrow> init_step st s"
  by (auto simp: klp_init_object_loaded_def Let_def init_step_refl split: if_splits
        dest: klp_init_funcs_loaded_init_step)

lemma klp_init_object_init_step:
  assumes "klp_init_object env st p ob = (r, s)"
  shows "init_step st s"
proof (cases "(klp_is_module st ob \<and>
      length (name_of (obj_name (object_at st ob))) \<ge> MODULE_NAME_LEN env) \<or>
      klp_check_funcs st (func_list (object_at st ob)) \<noteq> 0")
  case True
  then have "s = st" using assms by (auto simp: klp_init_object_def split: if_splits)
  then show ?thesis by (simp add: init_step_refl)
next
  case False
  let ?s0 = "upd_obj ob (\<lambda>x. x\<lparr>obj_patched := False, obj_mod := None\<rparr>) st"
  have i0: "init_step st ?s0"
    by (simp add: init_step_def static_eq_def upd_defs)
  obtain r1 s1 where fm: "klp_find_object_module env ?s0 ob = (r1, s1)"
    by (cases "klp_find_object_module env ?s0 ob")
  note i1 = init_step_trans [OF i0 klp_find_object_module_init_step [OF fm]]
  show ?thesis
  proof (cases "r1 = 0")
    case r1: False
    then have "s = s1" using assms False fm by (auto simp: klp_init_object_def)
    then show ?thesis using i1 by simp
  next
    case r1: True
    let ?k = "kobject_add env (ObjKobj (if klp_is_module s1 ob
        then name_of (obj_name (object_at s1 ob)) else ''vmlinux''))"
    show ?thesis
    proof (cases "?k = 0")
      case k: False
      then have "s = klp_init_object_out s1 ob"
        using assms False fm r1 by (auto simp: klp_init_object_def Let_def)
      then show ?thesis using init_step_trans [OF i1 klp_init_object_out_init_step] by simp
    next
      case k: True
      obtain r2 s2 where ld: "(if klp_is_object_loaded s1 ob
          then klp_init_object_loaded env s1 p ob else (0, s1)) = (r2, s2)"
        by (cases "if klp_is_object_loaded s1 ob
          then klp_init_object_loaded env s1 p ob else (0, s1)")
      have "init_step s1 s2"
        using ld by (auto simp: init_step_refl split: if_splits
            dest: klp_init_object_loaded_init_step)
      note i2 = init_step_trans [OF i1 this]
      show ?thesis
      proof (cases "r2 = 0")
        case r2: False
        then have "s = klp_init_object_out s2 ob"
          using assms False fm r1 k ld by (auto simp: klp_init_object_def Let_def)
        then show ?thesis using init_step_trans [OF i2 klp_init_object_out_init_step] by simp
      next
        case r2: True
        obtain r3 s3 where fi: "klp_init_funcs env s2 ob (func_list (object_at s2 ob)) = (r3, s3)"
          by (cases "klp_init_funcs env s2 ob (func_list (object_at s2 ob))")
        note i3 = init_step_trans [OF i2 klp_init_funcs_init_step [OF fi]]
        have "s = (if r3 \<noteq> 0 then klp_init_object_out s3 ob else s3)"
          using assms False fm r1 k ld r2 fi by (auto simp: klp_init_object_def Let_def)
        then show ?thesis
          using i3 init_step_trans [OF i3 klp_init_object_out_init_step] by simp
      qed
    qed
  qed
qed

lemma klp_init_object_bad:
  "klp_check_funcs st (func_list (object_at st ob)) \<noteq> 0 \<Longrightarrow>
   fst (klp_init_object env st p ob) = - EINVAL"
  using klp_check_funcs_values [of st "func_list (object_at st ob)"]
  by (auto simp: klp_init_object_def)

lemma klp_init_objects_init_step:
  "klp_init_objects env st p obs = (r, s) \<Longrightarrow> init_step st s"
proof (induction obs arbitrary: st)
  case Nil
  then show ?case by (simp add: init_step_refl)
next
  case (Cons ob obs)
  obtain r1 s1 where a: "klp_init_object env st p ob = (r1, s1)"
    by (cases "klp_init_object env st p ob")
  note i = klp_init_object_init_step [OF a]
  show ?case
  proof (cases "r1 = 0")
    case True
    then have "klp_init_objects env s1 p obs = (r, s)" using Cons.prems a by simp
    from init_step_trans [OF i Cons.IH [OF this]] show ?thesis .
  next
    case False
    then have "s = s1" using Cons.prems a by simp
    then show ?thesis using i by simp
  qed
qed

lemma klp_init_objects_append:
  "klp_init_objects env st p (xs @ ys) =
     (case klp_init_objects env st p xs of (r, s) \<Rightarrow>
        if r \<noteq> 0 then (r, s) else klp_init_objects env s p ys)"
  by (induction xs arbitrary: st) (auto split: prod.splits)

lemma init_step_check_funcs:
  "init_step st s \<Longrightarrow>
   klp_check_funcs s (func_list (object_at s ob)) = klp_check_funcs st (func_list (object_at st ob))"
  by (simp add: init_step_def static_eq_check_funcs)

text \<open>The object whose validation loop fails ends the initialisation of the objects with
  \<open>-EINVAL\<close>, unless the initialisation of an object before it has failed.\<close>

lemma klp_init_objects_bad:
  assumes "klp_check_funcs st (func_list (object_at st ob)) \<noteq> 0"
  shows "fst (klp_init_objects env st p (obs1 @ ob # obs2)) =
     (if fst (klp_init_objects env st p obs1) \<noteq> 0 then fst (klp_init_objects env st p obs1)
      else - EINVAL)"
proof (cases "klp_init_objects env st p obs1")
  case (Pair r1 s1)
  note i = klp_init_objects_init_step [OF Pair]
  have "klp_check_funcs s1 (func_list (object_at s1 ob)) \<noteq> 0"
    using assms by (simp only: init_step_check_funcs [OF i] not_False_eq_True)
  from klp_init_object_bad [OF this, of env p]
  show ?thesis
    by (cases "klp_init_object env s1 p ob") (simp add: klp_init_objects_append Pair)
qed

subsection \<open>Registration\<close>

lemma klp_init_patch_failure:
  "klp_init_patch env st p = (r, s) \<Longrightarrow> r \<noteq> 0 \<Longrightarrow> init_step st s"
  by (auto simp: klp_init_patch_def Let_def init_step_refl split: if_splits prod.splits
        dest: klp_init_objects_init_step)

lemma klp_init_patch_bad:
  assumes "obj_list (patch_at st p) = obs1 @ ob # obs2"
      and "klp_check_funcs st (func_list (object_at st ob)) \<noteq> 0"
  shows "fst (klp_init_patch env st p) =
     (if kobject_add env (PatchKobj (name_of (pmod (patch_at st p)))) \<noteq> 0
      then kobject_add env (PatchKobj (name_of (pmod (patch_at st p))))
      else if fst (klp_init_objects env st p obs1) \<noteq> 0
      then fst (klp_init_objects env st p obs1)
      else - EINVAL)"
proof -
  note b = klp_init_objects_bad [OF assms(2), where env = env and p = p and ?obs1.0 = obs1 and ?obs2.0 = obs2]
  show ?thesis
  proof (cases "klp_init_objects env st p (obs1 @ ob # obs2)")
    case (Pair r s)
    then show ?thesis
      using b by (auto simp: klp_init_patch_def Let_def assms(1))
  qed
qed

lemma klp_register_patch_failure:
  assumes "klp_register_patch env st (Some p) = (r, s)" and "r \<noteq> 0"
  shows "klp_patches s = klp_patches st"
    and "pmod (patch_at st p) \<noteq> None \<and> objs (patch_at st p) \<noteq> None \<and>
         (\<forall>ob \<in> set (klp_for_each_object_static st p). funcs (object_at st ob) \<noteq> None) \<and>
         is_livepatch_module env (name_of (pmod (patch_at st p))) \<and>
         klp_initialized st \<and> \<not> klp_is_patch_registered st p \<Longrightarrow>
         obj_list (patch_at s p) = [] \<and>
         (\<forall>ob \<in> set (klp_for_each_object_static st p). func_list (object_at s ob) = [])"
proof -
  let ?h = "pmod (patch_at st p) \<noteq> None \<and> objs (patch_at st p) \<noteq> None \<and>
         (\<forall>ob \<in> set (klp_for_each_object_static st p). funcs (object_at st ob) \<noteq> None) \<and>
         is_livepatch_module env (name_of (pmod (patch_at st p))) \<and>
         klp_initialized st \<and> \<not> klp_is_patch_registered st p"
  let ?s0 = "klp_init_patch_early st p"
  have hd: "s = st" if "\<not> ?h"
    using that assms(1)
    by (auto simp: klp_register_patch_def list_ex_iff split: if_splits)
  obtain r1 s1 where ip: "klp_init_patch env ?s0 p = (r1, s1)"
    by (cases "klp_init_patch env ?s0 p")
  have tl: "r1 = r \<and> s = klp_free_patch_start s1 p" if "?h"
    using that assms ip
    by (auto simp: klp_register_patch_def list_ex_iff split: if_splits)
  have i: "init_step ?s0 s1" if "?h"
    using klp_init_patch_failure [OF ip] tl [OF that] assms(2) by simp
  note e = klp_init_patch_early_props [where st = st and p = p]
  show "klp_patches s = klp_patches st"
  proof (cases ?h)
    case False
    then show ?thesis using hd by simp
  next
    case True
    have "klp_patches s1 = klp_patches st"
      using i [OF True] e(1) by (simp add: init_step_def static_eq_def)
    then show ?thesis
      using tl [OF True] True
      by (simp add: klp_free_patch_start_props klp_is_patch_registered_def)
  qed
  show "obj_list (patch_at s p) = [] \<and>
         (\<forall>ob \<in> set (klp_for_each_object_static st p). func_list (object_at s ob) = [])"
    if h: ?h
  proof -
    have "obj_list (patch_at s1 p) = klp_for_each_object_static st p"
      using i [OF h] e(2) by (simp add: init_step_def)
    then show ?thesis
      using tl [OF h] by (simp add: klp_free_patch_start_props)
  qed
qed

lemma klp_register_patch_bad:
  assumes ob: "ob \<in> set (klp_for_each_object_static st p)"
      and f: "f \<in> set (klp_for_each_func_static st ob)"
      and bad: "old_name (func_at st f) = None \<or>
                (new_func (func_at st f) = 0 \<and> \<not> nop (func_at st f))"
  shows "fst (klp_register_patch env st (Some p)) \<noteq> 0"
    and "klp_initialized st \<Longrightarrow>
         kobject_add env (PatchKobj (name_of (pmod (patch_at st p)))) = 0 \<Longrightarrow>
         klp_for_each_object_static st p = obs1 @ ob # obs2 \<Longrightarrow>
         fst (klp_init_objects env (klp_init_patch_early st p) p obs1) = 0 \<Longrightarrow>
         fst (klp_register_patch env st (Some p)) = - EINVAL"
proof -
  let ?s0 = "klp_init_patch_early st p"
  note e = klp_init_patch_early_props [where st = st and p = p]
  have bad0: "old_name (func_at ?s0 f) = None \<or>
                (new_func (func_at ?s0 f) = 0 \<and> \<not> nop (func_at ?s0 f))"
    using bad e(1) by (simp add: static_eq_def)
  have "f \<in> set (func_list (object_at ?s0 ob))"
    using f e(3) [OF ob] by simp
  from klp_check_funcs_bad [OF this bad0]
  have ck: "klp_check_funcs ?s0 (func_list (object_at ?s0 ob)) \<noteq> 0" by simp
  have pm: "pmod (patch_at ?s0 p) = pmod (patch_at st p)"
    using e(1) by (simp add: static_eq_def)
  have reg: "fst (klp_register_patch env st (Some p)) =
      (if pmod (patch_at st p) = None \<or> objs (patch_at st p) = None \<or>
          (\<exists>ob \<in> set (klp_for_each_object_static st p). funcs (object_at st ob) = None) \<or>
          \<not> is_livepatch_module env (name_of (pmod (patch_at st p)))
       then - EINVAL
       else if \<not> klp_initialized st then - ENODEV
       else if klp_is_patch_registered st p then - EINVAL
       else fst (klp_init_patch env ?s0 p))"
    by (cases "klp_init_patch env ?s0 p")
      (auto simp: klp_register_patch_def list_ex_iff split: if_splits)
  show "fst (klp_register_patch env st (Some p)) \<noteq> 0"
  proof -
    obtain xs ys where sp: "obj_list (patch_at ?s0 p) = xs @ ob # ys"
      using ob e(2) split_list [of ob "klp_for_each_object_static st p"] by auto
    from klp_init_patch_bad [OF sp ck, where env = env]
    have "fst (klp_init_patch env ?s0 p) \<noteq> 0" by (auto split: if_splits)
    then show ?thesis by (simp add: reg)
  qed
  show "fst (klp_register_patch env st (Some p)) = - EINVAL"
    if "klp_initialized st"
      and "kobject_add env (PatchKobj (name_of (pmod (patch_at st p)))) = 0"
      and "klp_for_each_object_static st p = obs1 @ ob # obs2"
      and "fst (klp_init_objects env (klp_init_patch_early st p) p obs1) = 0"
  proof -
    have sp: "obj_list (patch_at ?s0 p) = obs1 @ ob # obs2"
      using that(3) e(2) by simp
    from klp_init_patch_bad [OF sp ck, where env = env]
    have "fst (klp_init_patch env ?s0 p) = - EINVAL"
      using that(2,4) by (simp add: pm)
    then show ?thesis using that(1) by (simp add: reg)
  qed
qed

text \<open>
  C8, as amended. \<open>klp_register_patch\<close> returns \<open>-EINVAL\<close> and leaves the state as it is
  for a \<open>NULL\<close> patch, for a patch whose \<open>mod\<close> or \<open>objs\<close> pointer is \<open>NULL\<close>, for a patch
  with an object (before the terminator of the array) whose \<open>funcs\<close> pointer is \<open>NULL\<close>,
  for a module that is not marked as a livepatch module and, live patching being
  initialised, for a patch that is registered already. A function of the patch without
  an old name, or with neither a new function nor the nop marker, makes the registration
  fail; the error is \<open>-EINVAL\<close> when live patching is initialised, the kobject of the
  patch has been added and every object before the one that holds the function has been
  initialised without error. Whenever the registration fails \<open>klp_patches\<close> is what it
  was; when it fails after the early initialisation, the object list of the patch and
  the function list of each of its objects are empty again.
\<close>

theorem klp_register_patch_rejects:
  "klp_register_patch env st None = (- EINVAL, st) \<and>
   (pmod (patch_at st p) = None \<or> objs (patch_at st p) = None \<or>
    (\<exists>ob' \<in> set (klp_for_each_object_static st p). funcs (object_at st ob') = None) \<or>
    \<not> is_livepatch_module env (name_of (pmod (patch_at st p))) \<or>
    (klp_initialized st \<and> klp_is_patch_registered st p) \<longrightarrow>
      klp_register_patch env st (Some p) = (- EINVAL, st)) \<and>
   (ob \<in> set (klp_for_each_object_static st p) \<and> f \<in> set (klp_for_each_func_static st ob) \<and>
    (old_name (func_at st f) = None \<or> (new_func (func_at st f) = 0 \<and> \<not> nop (func_at st f))) \<longrightarrow>
      fst (klp_register_patch env st (Some p)) \<noteq> 0 \<and>
      (klp_initialized st \<and> kobject_add env (PatchKobj (name_of (pmod (patch_at st p)))) = 0 \<and>
       klp_for_each_object_static st p = obs1 @ ob # obs2 \<and>
       fst (klp_init_objects env (klp_init_patch_early st p) p obs1) = 0 \<longrightarrow>
         fst (klp_register_patch env st (Some p)) = - EINVAL)) \<and>
   (fst (klp_register_patch env st (Some p)) \<noteq> 0 \<longrightarrow>
      klp_patches (snd (klp_register_patch env st (Some p))) = klp_patches st \<and>
      (pmod (patch_at st p) \<noteq> None \<and> objs (patch_at st p) \<noteq> None \<and>
       (\<forall>ob' \<in> set (klp_for_each_object_static st p). funcs (object_at st ob') \<noteq> None) \<and>
       is_livepatch_module env (name_of (pmod (patch_at st p))) \<and>
       klp_initialized st \<and> \<not> klp_is_patch_registered st p \<longrightarrow>
         obj_list (patch_at (snd (klp_register_patch env st (Some p))) p) = [] \<and>
         (\<forall>ob' \<in> set (klp_for_each_object_static st p).
            func_list (object_at (snd (klp_register_patch env st (Some p))) ob') = [])))"
proof (intro conjI impI)
  show "klp_register_patch env st None = (- EINVAL, st)"
    by (simp add: klp_register_patch_def)
next
  assume "pmod (patch_at st p) = None \<or> objs (patch_at st p) = None \<or>
    (\<exists>ob' \<in> set (klp_for_each_object_static st p). funcs (object_at st ob') = None) \<or>
    \<not> is_livepatch_module env (name_of (pmod (patch_at st p))) \<or>
    (klp_initialized st \<and> klp_is_patch_registered st p)"
  then show "klp_register_patch env st (Some p) = (- EINVAL, st)"
    by (auto simp: klp_register_patch_def list_ex_iff)
next
  assume a: "ob \<in> set (klp_for_each_object_static st p) \<and>
    f \<in> set (klp_for_each_func_static st ob) \<and>
    (old_name (func_at st f) = None \<or> (new_func (func_at st f) = 0 \<and> \<not> nop (func_at st f)))"
  then show "fst (klp_register_patch env st (Some p)) \<noteq> 0"
    using klp_register_patch_bad(1) [of ob st p f env] by blast
  assume "klp_initialized st \<and>
    kobject_add env (PatchKobj (name_of (pmod (patch_at st p)))) = 0 \<and>
    klp_for_each_object_static st p = obs1 @ ob # obs2 \<and>
    fst (klp_init_objects env (klp_init_patch_early st p) p obs1) = 0"
  then show "fst (klp_register_patch env st (Some p)) = - EINVAL"
    using a klp_register_patch_bad(2) [of ob st p f env obs1 obs2] by blast
next
  assume r: "fst (klp_register_patch env st (Some p)) \<noteq> 0"
  have pr: "klp_register_patch env st (Some p) =
      (fst (klp_register_patch env st (Some p)), snd (klp_register_patch env st (Some p)))"
    by simp
  show "klp_patches (snd (klp_register_patch env st (Some p))) = klp_patches st"
    by (rule klp_register_patch_failure(1) [OF pr r])
  assume "pmod (patch_at st p) \<noteq> None \<and> objs (patch_at st p) \<noteq> None \<and>
       (\<forall>ob' \<in> set (klp_for_each_object_static st p). funcs (object_at st ob') \<noteq> None) \<and>
       is_livepatch_module env (name_of (pmod (patch_at st p))) \<and>
       klp_initialized st \<and> \<not> klp_is_patch_registered st p"
  from klp_register_patch_failure(2) [OF pr r this]
  show "obj_list (patch_at (snd (klp_register_patch env st (Some p))) p) = []"
    and "\<forall>ob' \<in> set (klp_for_each_object_static st p).
            func_list (object_at (snd (klp_register_patch env st (Some p))) ob') = []"
    by blast+
qed

lemma st_bad_simps:
  "pmod (patch_at st_boot 40) = None" "klp_initialized st_reg" "klp_is_patch_registered st_reg 10"
  "klp_for_each_object_static st_bad 30 = [31]" "klp_for_each_func_static st_bad 31 = [32]"
  "old_name (func_at st_bad 32) = None" "new_func (func_at st_bad 32) = 28672"
  "klp_initialized st_bad" "klp_patches st_bad = []"
  "pmod (patch_at st_bad 30) = Some ''livepatch_c''" "objs (patch_at st_bad 30) = Some [31, 0]"
  "funcs (object_at st_bad 31) = Some [32, 0]"
  "klp_init_objects env0 s 30 [] = (0, s)"
  by (simp_all add: st_bad_def st_reg_def st_boot_def null_patch_def null_object_def null_func_def
      klp_initialized_def klp_is_patch_registered_def klp_for_each_object_static_def
      klp_for_each_func_static_def)

lemma st_late_simps:
  "klp_for_each_object_static st_late 30 = [33, 31]" "klp_for_each_func_static st_late 31 = [32]"
  "klp_for_each_func_static st_late 33 = [34]"
  "old_name (func_at st_late 32) = None" "old_name (func_at st_late 34) = Some ''ext4_sync_fs''"
  "new_func (func_at st_late 34) = 32768"
  "obj_name (object_at st_late 33) = Some ''ext4''" "find_module env0 ''ext4'' = None"
  "klp_initialized st_late"
  "klp_for_each_object_static st_hollow 30 = [35]" "klp_for_each_func_static st_hollow 35 = []"
  "funcs (object_at st_hollow 35) = Some [0]"
  by (simp_all add: st_late_def st_hollow_def st_bad_def st_boot_def null_patch_def
      null_object_def null_func_def klp_initialized_def klp_for_each_object_static_def
      klp_for_each_func_static_def upd_defs env0_def)

lemma st_late_run: "fst (klp_register_patch env0 st_late (Some 30)) = - ENOPKG"
  by (simp add: st_late_def st_bad_def st_boot_def null_patch_def null_object_def null_func_def
      model_defs env0_simps env0_def)

lemma st_hollow_run:
  "fst (klp_register_patch env0 st_hollow (Some 30)) = 0"
  "klp_patches (snd (klp_register_patch env0 st_hollow (Some 30))) = [30]"
  by (simp_all add: st_hollow_def st_bad_def st_boot_def null_patch_def null_object_def
      null_func_def model_defs env0_simps)

text \<open>The patch without module, the duplicate registration, and in \<open>st_bad\<close> the function
  without old name.\<close>

theorem klp_register_patch_rejects_witness:
  "klp_register_patch env0 st_bad None = (- EINVAL, st_bad) \<and>
   pmod (patch_at st_boot 40) = None \<and>
   klp_register_patch env0 st_boot (Some 40) = (- EINVAL, st_boot) \<and>
   klp_initialized st_reg \<and> klp_is_patch_registered st_reg 10 \<and>
   klp_register_patch env0 st_reg (Some 10) = (- EINVAL, st_reg) \<and>
   klp_for_each_object_static st_bad 30 = [31] \<and> klp_for_each_func_static st_bad 31 = [32] \<and>
   old_name (func_at st_bad 32) = None \<and> new_func (func_at st_bad 32) = 28672 \<and>
   fst (klp_register_patch env0 st_bad (Some 30)) = - EINVAL \<and>
   klp_patches (snd (klp_register_patch env0 st_bad (Some 30))) = [] \<and>
   obj_list (patch_at (snd (klp_register_patch env0 st_bad (Some 30))) 30) = [] \<and>
   func_list (object_at (snd (klp_register_patch env0 st_bad (Some 30))) 31) = []"
proof -
  note a = klp_register_patch_rejects [where env = env0 and st = st_boot and p = 40
      and ob = 31 and f = 32 and ?obs1.0 = "[]" and ?obs2.0 = "[]"]
  note b = klp_register_patch_rejects [where env = env0 and st = st_reg and p = 10
      and ob = 31 and f = 32 and ?obs1.0 = "[]" and ?obs2.0 = "[]"]
  note c = klp_register_patch_rejects [where env = env0 and st = st_bad and p = 30
      and ob = 31 and f = 32 and ?obs1.0 = "[]" and ?obs2.0 = "[]"]
  have a1: "klp_register_patch env0 st_boot (Some 40) = (- EINVAL, st_boot)"
    using a by (simp add: st_bad_simps)
  have b1: "klp_register_patch env0 st_reg (Some 10) = (- EINVAL, st_reg)"
    using b by (simp add: st_bad_simps)
  have c0: "klp_register_patch env0 st_bad None = (- EINVAL, st_bad)"
    using c by blast
  have c1: "fst (klp_register_patch env0 st_bad (Some 30)) = - EINVAL"
    using c by (simp add: st_bad_simps env0_simps)
  have c2: "klp_patches (snd (klp_register_patch env0 st_bad (Some 30))) = [] \<and>
      obj_list (patch_at (snd (klp_register_patch env0 st_bad (Some 30))) 30) = [] \<and>
      func_list (object_at (snd (klp_register_patch env0 st_bad (Some 30))) 31) = []"
    using c c1 by (simp add: st_bad_simps env0_simps klp_is_patch_registered_def)
  show ?thesis
    using a1 b1 c0 c1 c2 by (simp add: st_bad_simps)
qed

text \<open>In \<open>st_late\<close> the function without old name is in the second object; the first is
  for a module that is not loaded, and the registration fails with \<open>-ENOPKG\<close>. In
  \<open>st_hollow\<close> the object has no function, and the registration succeeds.\<close>

theorem klp_register_patch_einval_counterexample:
  "klp_initialized st_late \<and> klp_for_each_object_static st_late 30 = [33, 31] \<and>
   klp_for_each_func_static st_late 31 = [32] \<and> old_name (func_at st_late 32) = None \<and>
   obj_name (object_at st_late 33) = Some ''ext4'' \<and> find_module env0 ''ext4'' = None \<and>
   fst (klp_register_patch env0 st_late (Some 30)) = - ENOPKG \<and>
   fst (klp_register_patch env0 st_late (Some 30)) \<noteq> - EINVAL \<and>
   klp_for_each_object_static st_hollow 30 = [35] \<and>
   klp_for_each_func_static st_hollow 35 = [] \<and>
   fst (klp_register_patch env0 st_hollow (Some 30)) = 0 \<and>
   klp_patches (snd (klp_register_patch env0 st_hollow (Some 30))) = [30]"
  by (simp add: st_late_simps st_late_run st_hollow_run)

text \<open>Before live patching is initialised a well-shaped patch is refused with \<open>-ENODEV\<close>;
  a patch whose object array holds the terminator only is registered.\<close>

lemma klp_register_patch_not_initialized:
  "pmod (patch_at st p) \<noteq> None \<Longrightarrow> objs (patch_at st p) \<noteq> None \<Longrightarrow>
   \<forall>ob \<in> set (klp_for_each_object_static st p). funcs (object_at st ob) \<noteq> None \<Longrightarrow>
   is_livepatch_module env (name_of (pmod (patch_at st p))) \<Longrightarrow> \<not> klp_initialized st \<Longrightarrow>
   klp_register_patch env st (Some p) = (- ENODEV, st)"
  by (simp add: klp_register_patch_def list_ex_iff)

lemma klp_register_patch_no_objects:
  "klp_for_each_object_static (upd_patch 30 (\<lambda>x. x\<lparr>objs := Some [0]\<rparr>) st_bad) 30 = [] \<and>
   fst (klp_register_patch env0 (upd_patch 30 (\<lambda>x. x\<lparr>objs := Some [0]\<rparr>) st_bad) (Some 30)) = 0 \<and>
   klp_patches (snd (klp_register_patch env0 (upd_patch 30 (\<lambda>x. x\<lparr>objs := Some [0]\<rparr>) st_bad)
     (Some 30))) = [30]"
  by (simp add: st_bad_def st_boot_def null_patch_def null_object_def null_func_def model_defs
      env0_simps)

section \<open>The life of a function-site node\<close>

subsection \<open>The list after \<open>klp_mem_recycle\<close>\<close>

lemma klp_mem_recycle_funcs_list:
  "klp_mem_recycle_funcs fs st = Some s \<Longrightarrow>
   node_at s = node_at st \<and> next_node s = next_node st \<and>
   (\<forall>n. (n \<in> set (klp_func_list s)) =
     (n \<in> set (klp_func_list st) \<and>
      \<not> (func_stack (node_at st n) = [] \<and>
         (\<exists>f \<in> set fs. func_node (func_at st f) = Some n))))"
proof (induction fs arbitrary: st)
  case Nil
  then show ?case by simp
next
  case (Cons f fs)
  then obtain s1 where a: "func_node_free f st = Some s1"
    and b: "klp_mem_recycle_funcs fs s1 = Some s"
    by (auto split: option.splits)
  note p = func_node_free_some [OF a]
  note ih = Cons.IH [OF b]
  have nd: "node_at s = node_at st" and nx: "next_node s = next_node st"
    using ih by (simp_all add: p(2,3))
  have "(n \<in> set (klp_func_list s)) =
     (n \<in> set (klp_func_list st) \<and>
      \<not> (func_stack (node_at st n) = [] \<and>
         (\<exists>g \<in> set (f # fs). func_node (func_at st g) = Some n)))" for n
  proof -
    have "(n \<in> set (klp_func_list s)) =
        (n \<in> set (klp_func_list s1) \<and>
         \<not> (func_stack (node_at s1 n) = [] \<and>
            (\<exists>g \<in> set fs. func_node (func_at s1 g) = Some n)))"
      using ih by simp
    also have "\<dots> = ((n \<in> set (klp_func_list st) \<and>
        \<not> (func_stack (node_at st n) = [] \<and> func_node (func_at st f) = Some n)) \<and>
       \<not> (func_stack (node_at st n) = [] \<and>
          (\<exists>g \<in> set fs. g \<noteq> f \<and> func_node (func_at st g) = Some n)))"
      unfolding p(1) p(2) p(5) by auto
    finally show ?thesis by auto
  qed
  with nd nx show ?case by blast
qed

lemma klp_mem_recycle_node_inv:
  assumes "klp_mem_recycle st p = Some s"
      and "\<forall>n. func_stack (node_at st n) \<noteq> [] \<longrightarrow> n \<in> set (klp_func_list st)"
      and "\<forall>n \<in> set (klp_func_list st). func_stack (node_at st n) = [] \<longrightarrow>
             (\<exists>f \<in> set (patch_funcs st p). func_node (func_at st f) = Some n)"
  shows "node_inv s"
proof -
  note l = klp_mem_recycle_funcs_list [OF assms(1) [unfolded klp_mem_recycle_def]]
  show ?thesis
    unfolding node_inv_def using l assms(2,3) by auto
qed

lemma klp_mem_recycle_fresh:
  "klp_mem_recycle st p = Some s \<Longrightarrow> nodes_fresh st \<Longrightarrow> nodes_fresh s"
  unfolding nodes_fresh_def klp_mem_recycle_def
  using klp_mem_recycle_funcs_list [of "patch_funcs st p" st s] by auto

subsection \<open>Steps on the stacks\<close>

lemma touch_refl: "touch F st st"
  by (simp add: touch_def)

lemma touch_trans: "touch F a b \<Longrightarrow> touch F b c \<Longrightarrow> touch F a c"
  unfolding touch_def by metis

lemma touch_mono: "touch F st s \<Longrightarrow> F \<subseteq> G \<Longrightarrow> touch G st s"
  unfolding touch_def by blast

lemma shrink_refl: "shrink st st"
  by (simp add: shrink_def)

lemma shrink_trans: "shrink a b \<Longrightarrow> shrink b c \<Longrightarrow> shrink a c"
  unfolding shrink_def by blast

lemma pushes_refl: "pushes st st"
  by (simp add: pushes_def)

lemma pushes_trans:
  assumes ab: "pushes a b" and bc: "pushes b c"
  shows "pushes a c"
proof -
  have p: "\<And>f. func_node (func_at c f) = func_node (func_at a f)"
    and p': "\<And>f. func_node (func_at c f) = func_node (func_at b f)"
    using ab bc by (simp_all add: pushes_def)
  have g: "\<And>n. set (func_stack (node_at a n)) \<subseteq> set (func_stack (node_at c n))"
    and g': "\<And>n. set (func_stack (node_at b n)) \<subseteq> set (func_stack (node_at c n))"
    using ab bc unfolding pushes_def by blast+
  have m: "\<And>f. patched (func_at a f) \<Longrightarrow> patched (func_at c f)"
    using ab bc by (simp add: pushes_def)
  have o: "onstack c f" if "patched (func_at c f)" "\<not> patched (func_at a f)" for f
  proof (cases "patched (func_at b f)")
    case True
    then have "onstack b f" using ab that(2) by (simp add: pushes_def)
    then show ?thesis
      unfolding onstack_def using p' [of f] g' by auto
  next
    case False
    then show ?thesis using bc that(1) by (simp add: pushes_def)
  qed
  show ?thesis
    unfolding pushes_def using p g m o by blast
qed

lemma klp_unpatch_func_touch:
  "touch {f} st (klp_unpatch_func f st) \<and> shrink st (klp_unpatch_func f st)"
  by (auto simp: klp_unpatch_func_def arch_klp_unpatch_func_def touch_def shrink_def Let_def
        upd_defs split: option.splits dest: set_remove1_subset [THEN subsetD])

lemma fold_unpatch_touch:
  "touch (set fs) st
     (fold (\<lambda>f s. if patched (func_at s f) then klp_unpatch_func f s else s) fs st) \<and>
   shrink st (fold (\<lambda>f s. if patched (func_at s f) then klp_unpatch_func f s else s) fs st)"
proof (induction fs arbitrary: st)
  case Nil
  show ?case by (simp add: touch_refl shrink_refl)
next
  case (Cons f fs)
  let ?s1 = "if patched (func_at st f) then klp_unpatch_func f st else st"
  have a: "touch (set (f # fs)) st ?s1" and b: "shrink st ?s1"
    using klp_unpatch_func_touch [of f st]
    by (auto simp: touch_refl shrink_refl intro: touch_mono)
  have c: "touch (set (f # fs)) ?s1
      (fold (\<lambda>f s. if patched (func_at s f) then klp_unpatch_func f s else s) fs ?s1)"
    using Cons.IH [of ?s1] by (auto intro: touch_mono)
  have d: "shrink ?s1
      (fold (\<lambda>f s. if patched (func_at s f) then klp_unpatch_func f s else s) fs ?s1)"
    using Cons.IH [of ?s1] by simp
  show ?case
    using touch_trans [OF a c] shrink_trans [OF b d] by simp
qed

lemma upd_obj_touch: "touch F st (upd_obj ob g st) \<and> shrink st (upd_obj ob g st) \<and>
    pushes st (upd_obj ob g st)"
  by (simp add: touch_def shrink_def pushes_def onstack_def upd_defs)

lemma klp_unpatch_object_touch:
  "touch (set (func_list (object_at st ob))) st (klp_unpatch_object ob st) \<and>
   shrink st (klp_unpatch_object ob st)"
  unfolding klp_unpatch_object_def
  using fold_unpatch_touch [of "func_list (object_at st ob)" st] upd_obj_touch
  by (blast intro: touch_trans shrink_trans)

lemma fold_unpatch_object_touch:
  "\<forall>ob \<in> set obs. set (func_list (object_at st ob)) \<subseteq> F \<Longrightarrow>
   touch F st
     (fold (\<lambda>ob s. if obj_patched (object_at s ob) then klp_unpatch_object ob s else s) obs st) \<and>
   shrink st
     (fold (\<lambda>ob s. if obj_patched (object_at s ob) then klp_unpatch_object ob s else s) obs st)"
proof (induction obs arbitrary: st)
  case Nil
  show ?case by (simp add: touch_refl shrink_refl)
next
  case (Cons ob obs)
  let ?s1 = "if obj_patched (object_at st ob) then klp_unpatch_object ob st else st"
  have ps: "patch_step st ?s1"
    by (simp add: klp_unpatch_object_patch_step patch_step_refl)
  have a: "touch F st ?s1" and b: "shrink st ?s1"
    using klp_unpatch_object_touch [of st ob] Cons.prems
    by (auto simp: touch_refl shrink_refl intro: touch_mono)
  have "\<forall>x \<in> set obs. set (func_list (object_at ?s1 x)) \<subseteq> F"
    using Cons.prems by (simp add: patch_stepD(8) [OF ps])
  from Cons.IH [OF this] touch_trans [OF a] shrink_trans [OF b]
  show ?case by simp
qed

lemma klp_unpatch_objects_touch:
  "touch (set (patch_funcs st p)) st (klp_unpatch_objects st p) \<and>
   shrink st (klp_unpatch_objects st p)"
  unfolding klp_unpatch_objects_def
  by (rule fold_unpatch_object_touch) (auto simp: patch_funcs_def)

lemma disable_patch_touch:
  "touch (set (patch_funcs st p)) st (snd (disable_patch st p)) \<and>
   shrink st (snd (disable_patch st p))"
proof -
  have "func_at (snd (disable_patch st p)) = func_at (klp_unpatch_objects st p)"
    "node_at (snd (disable_patch st p)) = node_at (klp_unpatch_objects st p)"
    by (simp_all add: disable_patch_def Let_def module_put_def upd_defs split: option.splits)
  then show ?thesis
    using klp_unpatch_objects_touch [of st p] by (simp add: touch_def shrink_def)
qed

lemma klp_try_disable_patch_touch:
  assumes "klp_try_disable_patch env st p = (r, s)"
  shows "touch (set (patch_funcs st p)) st s \<and> shrink st s \<and> (r \<noteq> 0 \<longrightarrow> s = st)"
proof (cases "klp_check_patch_kprobed env st p \<or> klp_check_calltrace env st p False \<noteq> 0")
  case True
  then have "s = st"
    using assms by (auto simp: klp_try_disable_patch_def Let_def split: if_splits)
  then show ?thesis by (simp add: touch_refl shrink_refl)
next
  case False
  then have "(r, s) = disable_patch st p"
    using assms by (auto simp: klp_try_disable_patch_def Let_def split: if_splits)
  then have "r = fst (disable_patch st p)" "s = snd (disable_patch st p)"
    by (metis fst_conv, metis snd_conv)
  then show ?thesis
    using disable_patch_touch [of st p] disable_patch_result [of st p] by simp
qed

text \<open>Disabling keeps the list and the stacks in step.\<close>

lemma klp_disable_patch'_node_inv:
  assumes run: "klp_disable_patch' env st p = Some (r, s)"
      and inv: "node_inv st"
  shows "node_inv s \<and> (nodes_fresh st \<longrightarrow> nodes_fresh s)"
proof (cases "enabled (patch_at st p) \<and>
    \<not> (CONFIG_LIVEPATCH_STACK env \<and>
       (case list_next_entry (klp_patches st) p of None \<Rightarrow> False
        | Some q \<Rightarrow> enabled (patch_at st q)))")
  case False
  then have "s = st"
    using run by (auto simp: klp_disable_patch'_def split: if_splits)
  then show ?thesis using inv by simp
next
  case True
  obtain r1 s1 where t: "klp_try_disable_patch env st p = (r1, s1)"
    by (cases "klp_try_disable_patch env st p")
  note tp = klp_try_disable_patch_touch [OF t]
  have en: "en_step p st s1"
    using klp_try_disable_patch_en_step [OF t] True by simp
  show ?thesis
  proof (cases "r1 = 0")
    case False
    then have "s = s1"
      using run True t by (auto simp: klp_disable_patch'_def klp_stop_machine_def)
    then show ?thesis using tp False inv by simp
  next
    case r0: True
    then have rec: "klp_mem_recycle s1 p = Some s"
      using run True t by (auto simp: klp_disable_patch'_def klp_stop_machine_def)
    have l: "klp_func_list s1 = klp_func_list st" and nx: "next_node s1 = next_node st"
      by (simp_all add: en_stepD [OF en])
    have pf: "patch_funcs s1 p = patch_funcs st p"
      by (rule en_step_patch_funcs [OF en])
    have ptr: "\<And>f. func_node (func_at s1 f) = func_node (func_at st f)"
      using tp by (simp add: touch_def)
    have B: "\<forall>n. func_stack (node_at s1 n) \<noteq> [] \<longrightarrow> n \<in> set (klp_func_list s1)"
    proof (intro allI impI)
      fix n assume "func_stack (node_at s1 n) \<noteq> []"
      moreover have "set (func_stack (node_at s1 n)) \<subseteq> set (func_stack (node_at st n))"
        using tp by (simp add: shrink_def)
      ultimately have "func_stack (node_at st n) \<noteq> []"
        by auto
      then show "n \<in> set (klp_func_list s1)"
        using inv by (simp add: node_inv_def l)
    qed
    have A: "\<forall>n \<in> set (klp_func_list s1). func_stack (node_at s1 n) = [] \<longrightarrow>
        (\<exists>f \<in> set (patch_funcs s1 p). func_node (func_at s1 f) = Some n)"
    proof (intro ballI impI)
      fix n assume n: "n \<in> set (klp_func_list s1)" and e: "func_stack (node_at s1 n) = []"
      have "func_stack (node_at st n) \<noteq> []"
        using inv n by (simp add: node_inv_def l)
      then have "func_stack (node_at s1 n) \<noteq> func_stack (node_at st n)"
        using e by simp
      then have "\<exists>f \<in> set (patch_funcs st p). func_node (func_at st f) = Some n"
        using tp by (simp add: touch_def)
      then show "\<exists>f \<in> set (patch_funcs s1 p). func_node (func_at s1 f) = Some n"
        by (simp add: pf ptr)
    qed
    have fr: "nodes_fresh st \<Longrightarrow> nodes_fresh s1"
      by (simp add: nodes_fresh_def l nx)
    show ?thesis
      using klp_mem_recycle_node_inv [OF rec B A] klp_mem_recycle_fresh [OF rec] fr by blast
  qed
qed

subsection \<open>The nodes \<open>klp_mem_prepare\<close> allocates\<close>

lemma klp_find_func_node_mem:
  "klp_find_func_node st a = Some n \<Longrightarrow>
   n \<in> set (klp_func_list st) \<and> node_old_func (node_at st n) = a"
  by (auto simp: klp_find_func_node_def find_Some_iff)

lemma func_node_alloc_nodes_all:
  assumes "func_node_alloc env st f = (r, s)"
  shows "func_at s = func_at st \<and> next_node st \<le> next_node s \<and>
    set (klp_func_list st) \<subseteq> set (klp_func_list s) \<and>
    (\<forall>m. func_stack (node_at s m) = func_stack (node_at st m) \<or>
         (func_stack (node_at s m) = [] \<and> next_node st \<le> m)) \<and>
    (\<forall>m \<in> set (klp_func_list s).
       m \<in> set (klp_func_list st) \<or> (m = next_node st \<and> m < next_node s \<and> r = Some m)) \<and>
    (\<forall>n. r = Some n \<longrightarrow> n \<in> set (klp_func_list s))"
proof (cases "klp_find_func_node st (old_func (func_at st f))")
  case (Some k)
  then have e: "s = st" "r = Some k"
    using assms by (simp_all add: func_node_alloc_def)
  show ?thesis
    using klp_find_func_node_mem [OF Some] by (simp add: e)
next
  case None
  show ?thesis
    using assms None
    by (auto simp: func_node_alloc_def Let_def klp_add_func_node_def arch_klp_mem_free_def
          split: if_splits prod.splits)
qed

lemma func_node_alloc_nodes:
  assumes "func_node_alloc env st f = (r, s)"
  shows "func_at s = func_at st" "next_node st \<le> next_node s"
    "set (klp_func_list st) \<subseteq> set (klp_func_list s)"
    "func_stack (node_at s m) = func_stack (node_at st m) \<or>
     (func_stack (node_at s m) = [] \<and> next_node st \<le> m)"
    "m \<in> set (klp_func_list s) \<Longrightarrow>
     m \<in> set (klp_func_list st) \<or> (m = next_node st \<and> m < next_node s \<and> r = Some m)"
    "r = Some n \<Longrightarrow> n \<in> set (klp_func_list s)"
  using func_node_alloc_nodes_all [OF assms] by blast+

lemma klp_mem_prepare_funcs_alloc:
  "klp_mem_prepare_funcs env st fs = (ok, s) \<Longrightarrow> distinct fs \<Longrightarrow>
   next_node st \<le> next_node s \<and>
   set (klp_func_list st) \<subseteq> set (klp_func_list s) \<and>
   (\<forall>m. func_stack (node_at s m) = func_stack (node_at st m) \<or>
        (func_stack (node_at s m) = [] \<and> next_node st \<le> m)) \<and>
   (\<forall>m \<in> set (klp_func_list s). m \<in> set (klp_func_list st) \<or>
        (next_node st \<le> m \<and> m < next_node s \<and>
         (\<exists>f \<in> set fs. func_node (func_at s f) = Some m))) \<and>
   (ok \<longrightarrow> (\<forall>f \<in> set fs. \<exists>n. func_node (func_at s f) = Some n \<and>
                n \<in> set (klp_func_list s))) \<and>
   (\<forall>g. g \<notin> set fs \<longrightarrow> func_node (func_at s g) = func_node (func_at st g))"
proof (induction fs arbitrary: st)
  case Nil
  then show ?case by auto
next
  case (Cons f fs)
  obtain r st1 where a: "func_node_alloc env st f = (r, st1)"
    by (cases "func_node_alloc env st f")
  note A = func_node_alloc_nodes [OF a]
  let ?st2 = "upd_func f (\<lambda>x. x\<lparr>func_node := r\<rparr>) st1"
  have n2: "node_at ?st2 = node_at st1" "klp_func_list ?st2 = klp_func_list st1"
    "next_node ?st2 = next_node st1"
    by (simp_all add: upd_defs)
  have f2: "func_node (func_at ?st2 f) = r"
    "\<And>g. g \<noteq> f \<Longrightarrow> func_node (func_at ?st2 g) = func_node (func_at st g)"
    by (simp_all add: upd_defs A(1))
  show ?case
  proof (cases r)
    case None
    then have e: "s = ?st2" "\<not> ok"
      using Cons.prems a by (simp_all add: Let_def)
    have "m \<in> set (klp_func_list s) \<Longrightarrow> m \<in> set (klp_func_list st)" for m
      using A(5) [of m] None by (simp add: e upd_defs)
    moreover have "node_at s = node_at st1" "klp_func_list s = klp_func_list st1"
      "next_node s = next_node st1"
      "\<And>g. g \<noteq> f \<Longrightarrow> func_node (func_at s g) = func_node (func_at st g)"
      by (simp_all add: e upd_defs A(1))
    ultimately show ?thesis
      using A(2,3) A(4) e(2) by auto
  next
    case (Some n)
    then have run: "klp_mem_prepare_funcs env ?st2 fs = (ok, s)"
      using Cons.prems a by (simp add: Let_def)
    have d: "distinct fs" "f \<notin> set fs" using Cons.prems by simp_all
    note ih = Cons.IH [OF run d(1), unfolded n2]
    have pf: "func_node (func_at s f) = Some n"
      using ih d(2) f2(1) Some by simp
    have nl: "n \<in> set (klp_func_list s)"
      using A(6) [OF Some] ih by auto
    have c1: "next_node st \<le> next_node s" using A(2) ih by simp
    have c2: "set (klp_func_list st) \<subseteq> set (klp_func_list s)" using A(3) ih by blast
    have c3: "func_stack (node_at s m) = func_stack (node_at st m) \<or>
        (func_stack (node_at s m) = [] \<and> next_node st \<le> m)" for m
      using A(4) [of m] A(2) ih by (metis le_trans)
    have c4: "m \<in> set (klp_func_list st) \<or>
        (next_node st \<le> m \<and> m < next_node s \<and>
         (\<exists>g \<in> set (f # fs). func_node (func_at s g) = Some m))"
      if m: "m \<in> set (klp_func_list s)" for m
    proof -
      from ih m have "m \<in> set (klp_func_list st1) \<or>
          (next_node st1 \<le> m \<and> m < next_node s \<and>
           (\<exists>g \<in> set fs. func_node (func_at s g) = Some m))"
        by blast
      then show ?thesis
      proof
        assume "m \<in> set (klp_func_list st1)"
        from A(5) [OF this] show ?thesis
        proof
          assume "m \<in> set (klp_func_list st)" then show ?thesis by simp
        next
          assume x: "m = next_node st \<and> m < next_node st1 \<and> r = Some m"
          then have "m = n" using Some by simp
          moreover have "next_node st1 \<le> next_node s" using ih by simp
          ultimately show ?thesis using x pf by auto
        qed
      next
        assume "next_node st1 \<le> m \<and> m < next_node s \<and>
           (\<exists>g \<in> set fs. func_node (func_at s g) = Some m)"
        then show ?thesis using A(2) by auto
      qed
    qed
    have c5: "ok \<longrightarrow> (\<forall>g \<in> set (f # fs). \<exists>k. func_node (func_at s g) = Some k \<and>
                k \<in> set (klp_func_list s))"
      using ih pf nl by auto
    have c6: "\<forall>g. g \<notin> set (f # fs) \<longrightarrow> func_node (func_at s g) = func_node (func_at st g)"
      using ih f2(2) by auto
    show ?thesis
      using c1 c2 c3 c4 c5 c6 by blast
  qed
qed

subsection \<open>The stacks while a patch is applied\<close>

lemma klp_patch_func_touch:
  "klp_patch_func env st f = (r, s) \<Longrightarrow> touch {f} st s"
  by (auto simp: klp_patch_func_def arch_klp_patch_func_def touch_def Let_def upd_defs
        split: option.splits if_splits prod.splits)

lemma klp_patch_funcs_touch:
  "klp_patch_funcs env st ob fs = (r, s) \<Longrightarrow> set fs \<subseteq> F \<Longrightarrow>
   set (func_list (object_at st ob)) \<subseteq> F \<Longrightarrow> touch F st s"
proof (induction fs arbitrary: st)
  case Nil
  then show ?case by (simp add: touch_refl)
next
  case (Cons f fs)
  obtain r1 st1 where a: "klp_patch_func env st f = (r1, st1)"
    by (cases "klp_patch_func env st f")
  note ps = klp_patch_func_patch_step [OF a]
  have t1: "touch F st st1"
    using klp_patch_func_touch [OF a] Cons.prems(2) by (auto intro: touch_mono)
  have fl: "set (func_list (object_at st1 ob)) \<subseteq> F"
    using Cons.prems(3) by (simp add: patch_stepD(8) [OF ps])
  show ?case
  proof (cases "r1 = 0")
    case True
    then have "klp_patch_funcs env st1 ob fs = (r, s)"
      using Cons.prems(1) a by simp
    from Cons.IH [OF this _ fl] Cons.prems(2) touch_trans [OF t1] show ?thesis by simp
  next
    case False
    then have "s = klp_unpatch_object ob st1"
      using Cons.prems(1) a by simp
    then show ?thesis
      using klp_unpatch_object_touch [of st1 ob] fl touch_trans [OF t1]
      by (auto intro: touch_mono)
  qed
qed

lemma klp_patch_object_touch:
  assumes "klp_patch_object env st ob = (r, s)"
      and "set (func_list (object_at st ob)) \<subseteq> F"
  shows "touch F st s"
proof (cases "obj_patched (object_at st ob)")
  case True
  then have "s = st" using assms(1) by (simp add: klp_patch_object_def)
  then show ?thesis by (simp add: touch_refl)
next
  case False
  obtain r1 st1 where a: "klp_patch_funcs env st ob (func_list (object_at st ob)) = (r1, st1)"
    by (cases "klp_patch_funcs env st ob (func_list (object_at st ob))")
  note t1 = klp_patch_funcs_touch [OF a assms(2) assms(2)]
  have "s = st1 \<or> s = upd_obj ob (\<lambda>x. x\<lparr>obj_patched := True\<rparr>) st1"
    using assms(1) a False by (auto simp: klp_patch_object_def split: if_splits)
  then show ?thesis
    using t1 upd_obj_touch touch_trans [OF t1] by auto
qed

lemma enable_patch_objects_touch:
  "enable_patch_objects env st p obs = (r, s) \<Longrightarrow>
   \<forall>ob \<in> set obs. set (func_list (object_at st ob)) \<subseteq> F \<Longrightarrow>
   set (patch_funcs st p) \<subseteq> F \<Longrightarrow> touch F st s"
proof (induction obs arbitrary: st)
  case Nil
  then show ?case by (simp add: touch_refl)
next
  case (Cons ob obs)
  show ?case
  proof (cases "klp_is_object_loaded st ob")
    case False
    then have "enable_patch_objects env st p obs = (r, s)"
      using Cons.prems(1) by simp
    from Cons.IH [OF this _ Cons.prems(3)] Cons.prems(2) show ?thesis by simp
  next
    case True
    obtain r1 st1 where a: "klp_patch_object env st ob = (r1, st1)"
      by (cases "klp_patch_object env st ob")
    note ps = klp_patch_object_patch_step [OF a]
    have t1: "touch F st st1"
      using klp_patch_object_touch [OF a] Cons.prems(2) by simp
    have fl: "\<forall>x \<in> set obs. set (func_list (object_at st1 x)) \<subseteq> F"
      using Cons.prems(2) by (simp add: patch_stepD(8) [OF ps])
    have pf: "set (patch_funcs st1 p) \<subseteq> F"
      using Cons.prems(3) by (simp add: patch_stepD(20) [OF ps])
    show ?thesis
    proof (cases "r1 = 0")
      case r0: True
      then have "enable_patch_objects env st1 p obs = (r, s)"
        using Cons.prems(1) a True by simp
      from Cons.IH [OF this fl pf] touch_trans [OF t1] show ?thesis by simp
    next
      case False
      then have "s = snd (disable_patch st1 p)"
        using Cons.prems(1) a True by simp
      then show ?thesis
        using disable_patch_touch [of st1 p] pf touch_trans [OF t1]
        by (auto intro: touch_mono)
    qed
  qed
qed

lemma enable_patch_touch:
  assumes "enable_patch env st p = (r, s)"
  shows "touch (set (patch_funcs st p)) st s"
proof -
  obtain b st1 where g: "module_get env st (pmod (patch_at st p)) = (b, st1)"
    by (cases "module_get env st (pmod (patch_at st p))")
  let ?st2 = "upd_patch p (\<lambda>x. x\<lparr>enabled := True\<rparr>) st1"
  have fr: "func_at st1 = func_at st" "node_at st1 = node_at st"
    "object_at st1 = object_at st" "patch_at st1 = patch_at st"
    using g by (auto simp: module_get_def split: option.splits if_splits)
  have fr2: "func_at ?st2 = func_at st" "node_at ?st2 = node_at st"
    "object_at ?st2 = object_at st" "obj_list (patch_at ?st2 p) = obj_list (patch_at st p)"
    by (simp_all add: upd_defs fr)
  have pf2: "patch_funcs ?st2 p = patch_funcs st p"
    by (simp add: patch_funcs_def fr2)
  have ol: "\<forall>ob \<in> set (obj_list (patch_at st p)).
      set (func_list (object_at st ob)) \<subseteq> set (patch_funcs st p)"
    by (auto simp: patch_funcs_def)
  consider (a) "s = st1" | (b) "enable_patch_objects env ?st2 p (obj_list (patch_at st p)) = (r, s)"
    | (c) "enable_patch_objects env st p (obj_list (patch_at st p)) = (r, s)"
    using assms g by (cases b) (auto simp: enable_patch_def fr split: if_splits)
  then show ?thesis
  proof cases
    case a
    then show ?thesis by (simp add: touch_def fr)
  next
    case b
    have "touch (set (patch_funcs st p)) ?st2 s"
      by (rule enable_patch_objects_touch [OF b]) (simp_all add: fr2 pf2 ol)
    then show ?thesis by (simp add: touch_def fr2)
  next
    case c
    show ?thesis
      by (rule enable_patch_objects_touch [OF c]) (simp_all add: ol)
  qed
qed

lemma klp_try_enable_patch_touch:
  assumes "klp_try_enable_patch env st p = (r, s)"
  shows "touch (set (patch_funcs st p)) st s"
proof (cases "klp_check_patch_kprobed env st p \<or> klp_check_calltrace env st p True \<noteq> 0")
  case True
  then have "s = st"
    using assms by (auto simp: klp_try_enable_patch_def Let_def split: if_splits)
  then show ?thesis by (simp add: touch_refl)
next
  case False
  then have "enable_patch env st p = (r, s)"
    using assms by (auto simp: klp_try_enable_patch_def Let_def split: if_splits)
  then show ?thesis by (rule enable_patch_touch)
qed

subsection \<open>The stacks after a patch has been applied\<close>

lemma klp_patch_func_pushes:
  "klp_patch_func env st f = (r, s) \<Longrightarrow>
   pushes st s \<and> object_at s = object_at st \<and> (r = 0 \<longrightarrow> patched (func_at s f))"
  by (auto simp: klp_patch_func_def arch_klp_patch_func_def pushes_def onstack_def Let_def
        upd_defs split: option.splits if_splits prod.splits)

lemma klp_patch_funcs_pushes:
  "klp_patch_funcs env st ob fs = (0, s) \<Longrightarrow>
   pushes st s \<and> object_at s = object_at st \<and> (\<forall>f \<in> set fs. patched (func_at s f))"
proof (induction fs arbitrary: st)
  case Nil
  then show ?case by (simp add: pushes_refl)
next
  case (Cons f fs)
  obtain r1 st1 where a: "klp_patch_func env st f = (r1, st1)"
    by (cases "klp_patch_func env st f")
  have r1: "r1 = 0"
    using Cons.prems a by (auto split: if_splits)
  then have run: "klp_patch_funcs env st1 ob fs = (0, s)"
    using Cons.prems a by simp
  note p1 = klp_patch_func_pushes [OF a]
  note ih = Cons.IH [OF run]
  have "patched (func_at s f)"
    using p1 r1 ih by (simp add: pushes_def)
  then show ?case
    using ih p1 pushes_trans [of st st1 s] by simp
qed

lemma klp_patch_object_pushes:
  assumes "klp_patch_object env st ob = (0, s)"
  shows "pushes st s \<and>
    (\<forall>x. x \<noteq> ob \<longrightarrow> obj_patched (object_at s x) = obj_patched (object_at st x)) \<and>
    (\<not> obj_patched (object_at st ob) \<longrightarrow>
       (\<forall>f \<in> set (func_list (object_at st ob)). patched (func_at s f)))"
proof (cases "obj_patched (object_at st ob)")
  case True
  then have "s = st" using assms by (simp add: klp_patch_object_def)
  then show ?thesis using True by (simp add: pushes_refl)
next
  case False
  obtain r1 st1 where a: "klp_patch_funcs env st ob (func_list (object_at st ob)) = (r1, st1)"
    by (cases "klp_patch_funcs env st ob (func_list (object_at st ob))")
  have r1: "r1 = 0" and e: "s = upd_obj ob (\<lambda>x. x\<lparr>obj_patched := True\<rparr>) st1"
    using assms a False by (auto simp: klp_patch_object_def split: if_splits)
  note p = klp_patch_funcs_pushes [OF a [unfolded r1]]
  have "pushes st1 s" using upd_obj_touch by (simp add: e)
  then have "pushes st s" using p pushes_trans by blast
  moreover have "\<forall>f \<in> set (func_list (object_at st ob)). patched (func_at s f)"
    using p by (simp add: e upd_defs)
  moreover have "\<forall>x. x \<noteq> ob \<longrightarrow> obj_patched (object_at s x) = obj_patched (object_at st x)"
    using p by (simp add: e upd_defs)
  ultimately show ?thesis by blast
qed

lemma enable_patch_objects_pushes:
  "enable_patch_objects env st p obs = (0, s) \<Longrightarrow>
   pushes st s \<and>
   (\<forall>ob \<in> set obs. klp_is_object_loaded st ob \<and> \<not> obj_patched (object_at st ob) \<longrightarrow>
      (\<forall>f \<in> set (func_list (object_at st ob)). patched (func_at s f)))"
proof (induction obs arbitrary: st)
  case Nil
  then show ?case by (simp add: pushes_refl)
next
  case (Cons ob obs)
  show ?case
  proof (cases "klp_is_object_loaded st ob")
    case False
    then have "enable_patch_objects env st p obs = (0, s)"
      using Cons.prems by simp
    from Cons.IH [OF this] False show ?thesis by auto
  next
    case True
    obtain r1 st1 where a: "klp_patch_object env st ob = (r1, st1)"
      by (cases "klp_patch_object env st ob")
    have r1: "r1 = 0"
      using Cons.prems a True by (auto split: if_splits)
    then have run: "enable_patch_objects env st1 p obs = (0, s)"
      using Cons.prems a True by simp
    note ps = klp_patch_object_patch_step [OF a]
    note p1 = klp_patch_object_pushes [OF a [unfolded r1]]
    note ih = Cons.IH [OF run]
    have ps1: "pushes st1 s" using ih by simp
    have tot: "pushes st s" using p1 ps1 pushes_trans by blast
    have "\<forall>f \<in> set (func_list (object_at st x)). patched (func_at s f)"
      if x: "x \<in> set (ob # obs)" and l: "klp_is_object_loaded st x"
        and n: "\<not> obj_patched (object_at st x)" for x
    proof (cases "x = ob")
      case True
      then have "\<forall>f \<in> set (func_list (object_at st x)). patched (func_at st1 f)"
        using p1 n by simp
      then show ?thesis using ps1 by (simp add: pushes_def)
    next
      case False
      then have "x \<in> set obs" using x by simp
      moreover have "klp_is_object_loaded st1 x" using l by (simp add: patch_stepD(21) [OF ps])
      moreover have "\<not> obj_patched (object_at st1 x)" using p1 n False by simp
      ultimately have "\<forall>f \<in> set (func_list (object_at st1 x)). patched (func_at s f)"
        using ih by blast
      then show ?thesis by (simp add: patch_stepD(8) [OF ps])
    qed
    with tot show ?thesis by blast
  qed
qed

lemma klp_try_enable_patch_pushes:
  assumes run: "klp_try_enable_patch env st p = (0, s)"
      and en: "\<not> enabled (patch_at st p)"
  shows "pushes st s \<and>
   (\<forall>ob \<in> set (obj_list (patch_at st p)).
      klp_is_object_loaded st ob \<and> \<not> obj_patched (object_at st ob) \<longrightarrow>
      (\<forall>f \<in> set (func_list (object_at st ob)). patched (func_at s f)))"
proof -
  have ep: "enable_patch env st p = (0, s)"
    using run by (auto simp: klp_try_enable_patch_def Let_def split: if_splits)
  obtain b st1 where g: "module_get env st (pmod (patch_at st p)) = (b, st1)"
    by (cases "module_get env st (pmod (patch_at st p))")
  let ?st2 = "upd_patch p (\<lambda>x. x\<lparr>enabled := True\<rparr>) st1"
  have fr: "func_at st1 = func_at st" "node_at st1 = node_at st"
    "object_at st1 = object_at st" "patch_at st1 = patch_at st"
    using g by (auto simp: module_get_def split: option.splits if_splits)
  have fr2: "func_at ?st2 = func_at st" "node_at ?st2 = node_at st"
    "object_at ?st2 = object_at st"
    by (simp_all add: upd_defs fr)
  have l2: "\<And>ob. klp_is_object_loaded ?st2 ob = klp_is_object_loaded st ob"
    by (simp add: klp_is_object_loaded_def fr2)
  have eo: "enable_patch_objects env ?st2 p (obj_list (patch_at st p)) = (0, s)"
    using ep g en by (cases b) (auto simp: enable_patch_def fr)
  note q = enable_patch_objects_pushes [OF eo]
  have "pushes ?st2 s" using q by simp
  then have "pushes st s"
    unfolding pushes_def onstack_def fr2 .
  then show ?thesis
    using q by (simp add: fr2 l2)
qed

subsection \<open>Enabling keeps the list and the stacks in step\<close>

lemma klp_enable_patch'_node_inv:
  assumes run: "klp_enable_patch' env st p = Some (r, s)"
      and inv: "node_inv st" and fr: "nodes_fresh st" and rest: "patch_at_rest st p"
  shows "node_inv s \<and> nodes_fresh s"
proof (cases "enabled (patch_at st p) \<or>
    (CONFIG_LIVEPATCH_STACK env \<and>
       (case list_prev_entry (klp_patches st) p of None \<Rightarrow> False
        | Some q \<Rightarrow> \<not> enabled (patch_at st q)))")
  case True
  then have "s = st"
    using run by (auto simp: klp_enable_patch'_def split: if_splits)
  then show ?thesis using inv fr by simp
next
  case False
  then have body: "klp_enable_patch' env st p =
      (case klp_mem_prepare env st p of
         None \<Rightarrow> None
       | Some (ret, st1) \<Rightarrow>
           if ret \<noteq> 0 then Some (ret, st1)
           else (case klp_stop_machine (klp_try_enable_patch env) st1 p of
                   (ret, st2) \<Rightarrow>
                     if ret \<noteq> 0 then map_option (\<lambda>s. (ret, s)) (klp_mem_recycle st2 p)
                     else if \<not> CONFIG_LIVEPATCH_STACK env
                     then Some (0, st2\<lparr>klp_patches := removeAll p (klp_patches st2) @ [p]\<rparr>)
                     else Some (0, st2)))"
    by (auto simp: klp_enable_patch'_def)
  obtain ok s0 where pr: "klp_mem_prepare_funcs env st (patch_funcs st p) = (ok, s0)"
    by (cases "klp_mem_prepare_funcs env st (patch_funcs st p)")
  have dis: "distinct (patch_funcs st p)" and ne: "\<not> enabled (patch_at st p)"
    using rest by (simp_all add: patch_at_rest_def)
  note P = klp_mem_prepare_funcs_alloc [OF pr dis]
  note ms = klp_mem_prepare_funcs_mem_step [OF pr]
  have pf0: "patch_funcs s0 p = patch_funcs st p" by (rule mem_stepD(14) [OF ms])
  have stk: "\<And>m. func_stack (node_at s0 m) = func_stack (node_at st m) \<or>
        (func_stack (node_at s0 m) = [] \<and> next_node st \<le> m)"
    using P by blast
  have new: "\<And>m. m \<in> set (klp_func_list s0) \<Longrightarrow> m \<in> set (klp_func_list st) \<or>
        (next_node st \<le> m \<and> m < next_node s0 \<and>
         (\<exists>f \<in> set (patch_funcs st p). func_node (func_at s0 f) = Some m))"
    using P by blast
  have sub: "set (klp_func_list st) \<subseteq> set (klp_func_list s0)"
    and nx: "next_node st \<le> next_node s0"
    using P by blast+
  have K0: "func_stack (node_at s0 n) = func_stack (node_at st n) \<and>
      func_stack (node_at st n) \<noteq> []" if "n \<in> set (klp_func_list st)" for n
  proof -
    have "n < next_node st" using fr that by (simp add: nodes_fresh_def)
    then have "func_stack (node_at s0 n) = func_stack (node_at st n)"
      using stk [of n] by auto
    then show ?thesis using inv that by (simp add: node_inv_def)
  qed
  have B0: "\<forall>n. func_stack (node_at s0 n) \<noteq> [] \<longrightarrow> n \<in> set (klp_func_list s0)"
  proof (intro allI impI)
    fix n assume a: "func_stack (node_at s0 n) \<noteq> []"
    then have "func_stack (node_at st n) \<noteq> []" using stk [of n] by auto
    then show "n \<in> set (klp_func_list s0)"
      using inv sub by (auto simp: node_inv_def)
  qed
  have A0: "\<forall>n \<in> set (klp_func_list s0). func_stack (node_at s0 n) = [] \<longrightarrow>
      (\<exists>f \<in> set (patch_funcs s0 p). func_node (func_at s0 f) = Some n)"
  proof (intro ballI impI)
    fix n assume n: "n \<in> set (klp_func_list s0)" and e: "func_stack (node_at s0 n) = []"
    have "n \<notin> set (klp_func_list st)" using K0 [of n] e by auto
    then show "\<exists>f \<in> set (patch_funcs s0 p). func_node (func_at s0 f) = Some n"
      using new [OF n] by (simp add: pf0)
  qed
  have F0: "nodes_fresh s0"
    unfolding nodes_fresh_def
  proof
    fix n assume "n \<in> set (klp_func_list s0)"
    from new [OF this] show "n < next_node s0"
      using fr nx by (auto simp: nodes_fresh_def)
  qed
  show ?thesis
  proof (cases ok)
    case nok: False
    then have mp: "klp_mem_prepare env st p = map_option (\<lambda>x. (- ENOMEM, x)) (klp_mem_recycle s0 p)"
      using pr by (simp add: klp_mem_prepare_def)
    have rec: "klp_mem_recycle s0 p = Some s"
    proof (cases "klp_mem_recycle s0 p")
      case None
      then show ?thesis using run body mp by simp
    next
      case (Some x)
      then show ?thesis using run body mp by simp
    qed
    show ?thesis
      using klp_mem_recycle_node_inv [OF rec B0 A0] klp_mem_recycle_fresh [OF rec F0] by simp
  next
    case ok: True
    then have mp: "klp_mem_prepare env st p = Some (0, s0)"
      using pr by (simp add: klp_mem_prepare_def)
    obtain r2 s2 where t: "klp_try_enable_patch env s0 p = (r2, s2)"
      by (cases "klp_try_enable_patch env s0 p")
    have ne0: "\<not> enabled (patch_at s0 p)" using ne by (simp add: mem_stepD(2) [OF ms])
    have en: "en_step p s0 s2" using klp_try_enable_patch_en_step [OF t ne0] by simp
    note T = klp_try_enable_patch_touch [OF t]
    have l2: "klp_func_list s2 = klp_func_list s0" and nx2: "next_node s2 = next_node s0"
      by (simp_all add: en_stepD [OF en])
    have pf2: "patch_funcs s2 p = patch_funcs s0 p" by (rule en_step_patch_funcs [OF en])
    have ptr: "\<And>f. func_node (func_at s2 f) = func_node (func_at s0 f)"
      using T by (simp add: touch_def)
    have tch: "\<And>n. func_stack (node_at s2 n) \<noteq> func_stack (node_at s0 n) \<Longrightarrow>
        \<exists>f \<in> set (patch_funcs s0 p). func_node (func_at s0 f) = Some n"
      using T by (simp add: touch_def)
    have ref: "\<And>f. f \<in> set (patch_funcs s0 p) \<Longrightarrow>
        \<exists>k. func_node (func_at s0 f) = Some k \<and> k \<in> set (klp_func_list s0)"
      using P ok by (simp add: pf0)
    have B2: "\<forall>n. func_stack (node_at s2 n) \<noteq> [] \<longrightarrow> n \<in> set (klp_func_list s2)"
    proof (intro allI impI)
      fix n assume a: "func_stack (node_at s2 n) \<noteq> []"
      show "n \<in> set (klp_func_list s2)"
      proof (cases "func_stack (node_at s2 n) = func_stack (node_at s0 n)")
        case True
        then show ?thesis using a B0 by (simp add: l2)
      next
        case False
        from tch [OF this] obtain f where "f \<in> set (patch_funcs s0 p)"
          "func_node (func_at s0 f) = Some n" by blast
        then show ?thesis using ref [of f] by (auto simp: l2)
      qed
    qed
    have F2: "nodes_fresh s2" using F0 by (simp add: nodes_fresh_def l2 nx2)
    show ?thesis
    proof (cases "r2 = 0")
      case False
      then have rec: "klp_mem_recycle s2 p = Some s"
        using run body mp t by (auto simp: klp_stop_machine_def)
      have A2: "\<forall>n \<in> set (klp_func_list s2). func_stack (node_at s2 n) = [] \<longrightarrow>
          (\<exists>f \<in> set (patch_funcs s2 p). func_node (func_at s2 f) = Some n)"
      proof (intro ballI impI)
        fix n assume n: "n \<in> set (klp_func_list s2)" and e: "func_stack (node_at s2 n) = []"
        show "\<exists>f \<in> set (patch_funcs s2 p). func_node (func_at s2 f) = Some n"
        proof (cases "func_stack (node_at s2 n) = func_stack (node_at s0 n)")
          case True
          then show ?thesis using A0 n e by (simp add: l2 pf2 ptr)
        next
          case False
          from tch [OF this] show ?thesis by (simp add: pf2 ptr)
        qed
      qed
      show ?thesis
        using klp_mem_recycle_node_inv [OF rec B2 A2] klp_mem_recycle_fresh [OF rec F2] by simp
    next
      case r0: True
      then have se: "s = s2 \<or> s = s2\<lparr>klp_patches := removeAll p (klp_patches s2) @ [p]\<rparr>"
        using run body mp t by (auto simp: klp_stop_machine_def split: if_splits)
      note Q = klp_try_enable_patch_pushes [OF t [unfolded r0] ne0]
      have grow: "\<And>n. set (func_stack (node_at s0 n)) \<subseteq> set (func_stack (node_at s2 n))"
        using Q unfolding pushes_def by blast
      have on: "onstack s2 f" if f: "f \<in> set (patch_funcs s0 p)" for f
      proof -
        from f obtain ob where ob: "ob \<in> set (obj_list (patch_at s0 p))"
          and fo: "f \<in> set (func_list (object_at s0 ob))"
          by (auto simp: patch_funcs_def)
        have ob': "ob \<in> set (obj_list (patch_at st p))"
          using ob by (simp add: mem_stepD(2) [OF ms])
        have "klp_is_object_loaded s0 ob" "\<not> obj_patched (object_at s0 ob)"
          using rest ob'
          by (simp_all add: patch_at_rest_def no_object_patched_def klp_is_object_loaded_def
                mem_stepD(3) [OF ms])
        then have "patched (func_at s2 f)" using Q ob fo by blast
        moreover have "\<not> patched (func_at s0 f)"
          using rest f by (simp add: patch_at_rest_def none_patched_def pf0 mem_stepD(7) [OF ms])
        ultimately show ?thesis using Q by (simp add: pushes_def)
      qed
      have "node_inv s2"
        unfolding node_inv_def
      proof (intro allI iffI)
        fix n assume "func_stack (node_at s2 n) \<noteq> []"
        then show "n \<in> set (klp_func_list s2)" using B2 by simp
      next
        fix n assume n: "n \<in> set (klp_func_list s2)"
        then have n0: "n \<in> set (klp_func_list s0)" by (simp add: l2)
        show "func_stack (node_at s2 n) \<noteq> []"
        proof (cases "n \<in> set (klp_func_list st)")
          case True
          then have "func_stack (node_at s0 n) \<noteq> []" using K0 [of n] by simp
          then show ?thesis using grow [of n] by auto
        next
          case False
          then obtain f where f: "f \<in> set (patch_funcs s0 p)"
            and pn: "func_node (func_at s0 f) = Some n"
            using new [OF n0] by (auto simp: pf0)
          from on [OF f] show ?thesis
            by (auto simp: onstack_def ptr pn)
        qed
      qed
      then show ?thesis
        using se F2 by (auto simp: node_inv_def nodes_fresh_def)
    qed
  qed
qed

subsection \<open>Allocation, release and the invariant\<close>

lemma func_node_alloc_existing:
  assumes "klp_find_func_node st (old_func (func_at st f)) = Some n"
  shows "n \<in> set (klp_func_list st) \<and>
         node_old_func (node_at st n) = old_func (func_at st f) \<and>
         func_node_alloc env st f = (Some n, st)"
  using klp_find_func_node_mem [OF assms] assms by (simp add: func_node_alloc_def)

lemma func_node_alloc_fresh:
  assumes "klp_find_func_node st (old_func (func_at st f)) = None"
      and "func_node_alloc env st f = (r, s)"
  shows "if arch_klp_mem_alloc env (next_node st) \<and>
            fst (arch_klp_save_old_code env (old_func (func_at st f))) = 0
         then r = Some (next_node st) \<and>
              klp_func_list s = next_node st # klp_func_list st \<and>
              node_at s (next_node st) =
                \<lparr>node_old_func = old_func (func_at st f), func_stack = [],
                 arch_data = snd (arch_klp_save_old_code env (old_func (func_at st f)))\<rparr> \<and>
              rcu_log s = rcu_log st @ [ListAddRcu (next_node st)]
         else r = None \<and> klp_func_list s = klp_func_list st"
  using assms
  by (auto simp: func_node_alloc_def Let_def klp_add_func_node_def arch_klp_mem_free_def
        split: prod.splits if_splits)

lemma func_node_free_live:
  assumes "func_node (func_at st f) = Some n" and "\<not> node_freed st n"
  shows "\<exists>s. func_node_free f st = Some s \<and> func_node (func_at s f) = None \<and>
           node_at s = node_at st \<and>
           (if func_stack (node_at st n) = []
            then klp_func_list s = removeAll n (klp_func_list st) \<and>
                 rcu_log s = rcu_log st @ [ListDelRcu n, SynchronizeRcu, MemFree n]
            else klp_func_list s = klp_func_list st \<and> rcu_log s = rcu_log st)"
  using assms
  by (simp add: func_node_free_def Let_def upd_defs klp_del_func_node_def synchronize_rcu_def
        arch_klp_mem_free_def)

text \<open>
  Claim C4. A node with a given old address is on \<open>klp_func_list\<close> if and only if its
  function stack is not empty, whenever no operation is under way: the property
  \<open>node_inv\<close> holds again at every return of \<open>__klp_disable_patch\<close> and, for a patch at
  rest, of \<open>__klp_enable_patch\<close> (the two operations that allocate, push, pop and release
  nodes). \<open>klp_find_func_node\<close> finds a node exactly when one with the address is on the
  list; \<open>func_node_alloc\<close> returns that node and changes nothing, and otherwise
  allocates a fresh node, saves the original code in it and only then publishes it on the
  list (when the allocation or the saving fails, it returns NULL and the list is as it
  was). \<open>func_node_free\<close> clears the pointer of the function and, when the stack of the
  node is empty, and only then, unlinks the node (\<open>list_del_rcu\<close>), waits for the grace
  period (\<open>synchronize_rcu\<close>) and frees the memory, in this order, so that the memory is
  freed after every reader that could still see the node has finished.
\<close>

theorem klp_func_node_lifecycle:
  "((klp_find_func_node st a = None) =
      (\<forall>n \<in> set (klp_func_list st). node_old_func (node_at st n) \<noteq> a)) \<and>
   (\<forall>n. klp_find_func_node st (old_func (func_at st f)) = Some n \<longrightarrow>
        n \<in> set (klp_func_list st) \<and>
        node_old_func (node_at st n) = old_func (func_at st f) \<and>
        func_node_alloc env st f = (Some n, st)) \<and>
   (klp_find_func_node st (old_func (func_at st f)) = None \<longrightarrow>
      (\<forall>r s. func_node_alloc env st f = (r, s) \<longrightarrow>
         (if arch_klp_mem_alloc env (next_node st) \<and>
             fst (arch_klp_save_old_code env (old_func (func_at st f))) = 0
          then r = Some (next_node st) \<and>
               klp_func_list s = next_node st # klp_func_list st \<and>
               node_at s (next_node st) =
                 \<lparr>node_old_func = old_func (func_at st f), func_stack = [],
                  arch_data = snd (arch_klp_save_old_code env (old_func (func_at st f)))\<rparr> \<and>
               rcu_log s = rcu_log st @ [ListAddRcu (next_node st)]
          else r = None \<and> klp_func_list s = klp_func_list st))) \<and>
   (\<forall>n. func_node (func_at st f) = Some n \<and> \<not> node_freed st n \<longrightarrow>
      (\<exists>s. func_node_free f st = Some s \<and> func_node (func_at s f) = None \<and>
           node_at s = node_at st \<and>
           (if func_stack (node_at st n) = []
            then klp_func_list s = removeAll n (klp_func_list st) \<and>
                 rcu_log s = rcu_log st @ [ListDelRcu n, SynchronizeRcu, MemFree n]
            else klp_func_list s = klp_func_list st \<and> rcu_log s = rcu_log st))) \<and>
   (func_node (func_at st f) = None \<longrightarrow> func_node_free f st = Some st) \<and>
   (node_inv st \<longrightarrow>
      (\<forall>r s. klp_disable_patch' env st p = Some (r, s) \<longrightarrow>
         node_inv s \<and> (nodes_fresh st \<longrightarrow> nodes_fresh s))) \<and>
   (node_inv st \<and> nodes_fresh st \<and> patch_at_rest st p \<longrightarrow>
      (\<forall>r s. klp_enable_patch' env st p = Some (r, s) \<longrightarrow> node_inv s \<and> nodes_fresh s))"
proof (intro conjI allI impI)
  show "(klp_find_func_node st a = None) =
      (\<forall>n \<in> set (klp_func_list st). node_old_func (node_at st n) \<noteq> a)"
    by (auto simp: klp_find_func_node_def find_None_iff)
next
  fix n assume a: "klp_find_func_node st (old_func (func_at st f)) = Some n"
  from func_node_alloc_existing [OF a]
  show "n \<in> set (klp_func_list st)"
    "node_old_func (node_at st n) = old_func (func_at st f)"
    "func_node_alloc env st f = (Some n, st)"
    by simp_all
next
  fix r s
  assume "klp_find_func_node st (old_func (func_at st f)) = None"
    "func_node_alloc env st f = (r, s)"
  then show "if arch_klp_mem_alloc env (next_node st) \<and>
             fst (arch_klp_save_old_code env (old_func (func_at st f))) = 0
          then r = Some (next_node st) \<and>
               klp_func_list s = next_node st # klp_func_list st \<and>
               node_at s (next_node st) =
                 \<lparr>node_old_func = old_func (func_at st f), func_stack = [],
                  arch_data = snd (arch_klp_save_old_code env (old_func (func_at st f)))\<rparr> \<and>
               rcu_log s = rcu_log st @ [ListAddRcu (next_node st)]
          else r = None \<and> klp_func_list s = klp_func_list st"
    by (rule func_node_alloc_fresh)
next
  fix n assume "func_node (func_at st f) = Some n \<and> \<not> node_freed st n"
  then show "\<exists>s. func_node_free f st = Some s \<and> func_node (func_at s f) = None \<and>
           node_at s = node_at st \<and>
           (if func_stack (node_at st n) = []
            then klp_func_list s = removeAll n (klp_func_list st) \<and>
                 rcu_log s = rcu_log st @ [ListDelRcu n, SynchronizeRcu, MemFree n]
            else klp_func_list s = klp_func_list st \<and> rcu_log s = rcu_log st)"
    using func_node_free_live by blast
next
  assume "func_node (func_at st f) = None"
  then show "func_node_free f st = Some st"
    by (simp add: func_node_free_def)
next
  fix r s
  assume i: "node_inv st" and d: "klp_disable_patch' env st p = Some (r, s)"
  from klp_disable_patch'_node_inv [OF d i]
  show "node_inv s" by simp
  assume "nodes_fresh st"
  with klp_disable_patch'_node_inv [OF d i] show "nodes_fresh s" by simp
next
  fix r s
  assume i: "node_inv st \<and> nodes_fresh st \<and> patch_at_rest st p"
    and e: "klp_enable_patch' env st p = Some (r, s)"
  from klp_enable_patch'_node_inv [OF e] i
  show "node_inv s" "nodes_fresh s" by simp_all
qed

lemma st_rest:
  "node_inv st_reg" "nodes_fresh st_reg" "patch_at_rest st_reg 10" "patch_at_rest st_en1 20"
  "klp_find_func_node st_reg (old_func (func_at st_reg 12)) = None"
  "klp_find_func_node st_en1 (old_func (func_at st_en1 22)) = Some 100"
  "func_node (func_at st_en12 22) = Some 100" "\<not> node_freed st_en12 100"
  "func_stack (node_at st_en12 100) = [22, 12]"
  "func_node (func_at st_prep 12) = Some 100" "\<not> node_freed st_prep 100"
  "func_stack (node_at st_prep 100) = []"
  "klp_func_list st_prep = [100]" "rcu_log st_prep = [ListAddRcu 100]"
  "klp_func_list st_en12 = [100]" "klp_func_list st_reg = []" "next_node st_reg = 100"
  "arch_klp_mem_alloc env0 100" "arch_klp_save_old_code env0 (old_func (func_at st_reg 12)) = (0, 8192)"
  by (simp_all add: node_inv_def nodes_fresh_def patch_at_rest_def none_patched_def
      no_object_patched_def klp_is_object_loaded_def patch_funcs_def klp_find_func_node_def
      node_freed_def st_prep_def st_en12_def st_en1_def st_reg_def st_boot_def null_func_def
      null_object_def null_patch_def env0_simps)

text \<open>Patch 10 is enabled in \<open>st_reg\<close>, where no node exists: node 100 is allocated for
  the address of \<open>bar\<close>. Patch 20, enabled next, finds this node. Releasing the node of
  function 22 in \<open>st_en12\<close> leaves it on the list, its stack holding two functions;
  releasing the node of function 12 in \<open>st_prep\<close>, where its stack is empty, unlinks and
  frees it.\<close>

theorem klp_func_node_lifecycle_witness:
  "node_inv st_reg \<and> nodes_fresh st_reg \<and> patch_at_rest st_reg 10 \<and>
   klp_find_func_node st_reg (old_func (func_at st_reg 12)) = None \<and>
   fst (func_node_alloc env0 st_reg 12) = Some 100 \<and>
   klp_func_list (snd (func_node_alloc env0 st_reg 12)) = [100] \<and>
   klp_enable_patch' env0 st_reg 10 = Some (0, st_en1) \<and> node_inv st_en1 \<and>
   nodes_fresh st_en1 \<and> patch_at_rest st_en1 20 \<and>
   klp_find_func_node st_en1 (old_func (func_at st_en1 22)) = Some 100 \<and>
   func_node_alloc env0 st_en1 22 = (Some 100, st_en1) \<and>
   klp_enable_patch' env0 st_en1 20 = Some (0, st_en12) \<and> node_inv st_en12 \<and>
   func_node (func_at st_en12 22) = Some 100 \<and> \<not> node_freed st_en12 100 \<and>
   func_stack (node_at st_en12 100) = [22, 12] \<and>
   (\<exists>s. func_node_free 22 st_en12 = Some s \<and> klp_func_list s = [100] \<and>
        rcu_log s = rcu_log st_en12) \<and>
   klp_disable_patch' env0 st_en12 20 = Some (0, st_en1) \<and>
   func_node (func_at st_prep 12) = Some 100 \<and> \<not> node_freed st_prep 100 \<and>
   func_stack (node_at st_prep 100) = [] \<and>
   (\<exists>s. func_node_free 12 st_prep = Some s \<and> klp_func_list s = [] \<and>
        rcu_log s = [ListAddRcu 100, ListDelRcu 100, SynchronizeRcu, MemFree 100])"
proof -
  note T1 = klp_func_node_lifecycle [where st = st_reg and f = 12 and env = env0 and p = 10
      and a = 0]
  note T2 = klp_func_node_lifecycle [where st = st_en1 and f = 22 and env = env0 and p = 20
      and a = 0]
  note T3 = klp_func_node_lifecycle [where st = st_en12 and f = 22 and env = env0 and p = 20
      and a = 0]
  note T4 = klp_func_node_lifecycle [where st = st_prep and f = 12 and env = env0 and p = 10
      and a = 0]
  obtain r s where al: "func_node_alloc env0 st_reg 12 = (r, s)"
    by (cases "func_node_alloc env0 st_reg 12")
  have a1: "fst (func_node_alloc env0 st_reg 12) = Some 100 \<and>
      klp_func_list (snd (func_node_alloc env0 st_reg 12)) = [100]"
    using T1 [THEN conjunct2, THEN conjunct2, THEN conjunct1, rule_format, OF st_rest(5) al]
    by (simp add: al st_rest)
  have i1: "node_inv st_en1 \<and> nodes_fresh st_en1"
    using T1 st_rest(1-3) st_en1_run by blast
  have a2: "func_node_alloc env0 st_en1 22 = (Some 100, st_en1)"
    using T2 st_rest(6) by blast
  have i2: "node_inv st_en12"
    using T2 i1 st_rest(4) st_en12_run by blast
  have f3: "\<exists>s. func_node_free 22 st_en12 = Some s \<and> klp_func_list s = [100] \<and>
        rcu_log s = rcu_log st_en12"
    using T3 [THEN conjunct2, THEN conjunct2, THEN conjunct2, THEN conjunct1, rule_format,
        of 100] st_rest
    by auto
  have f4: "\<exists>s. func_node_free 12 st_prep = Some s \<and> klp_func_list s = [] \<and>
        rcu_log s = [ListAddRcu 100, ListDelRcu 100, SynchronizeRcu, MemFree 100]"
    using T4 [THEN conjunct2, THEN conjunct2, THEN conjunct2, THEN conjunct1, rule_format,
        of 100] st_rest
    by auto
  show ?thesis
    using a1 i1 a2 i2 f3 f4 st_rest st_en1_run st_en12_run st_dis20_run by simp
qed

end
